theory Spec2Isabelle
  imports Main "HOL-Library.Word"
begin

unbundle bit_operations_syntax

section \<open>Common types\<close>

text \<open>
  A disk sector number is a \<open>block_sector_t\<close>, an unsigned 32-bit integer. A pointer to a
  heap object is an address (\<open>nat\<close>) or \<open>None\<close> for the null pointer. Undefined behaviour
  of the C source (a dereference of a null, dangling or uninitialised pointer, an access
  outside an array) and kernel panics are values of type \<open>error\<close>.
\<close>

type_synonym sector = "32 word"
type_synonym byte = "8 word"
type_synonym ptr = "nat option"

datatype error =
    NullDeref        \<comment> \<open>dereference of a null pointer\<close>
  | Dangling         \<comment> \<open>dereference of a pointer to freed memory\<close>
  | Uninitialised    \<comment> \<open>dereference of an uninitialised pointer\<close>
  | OutOfBounds      \<comment> \<open>access outside the 512 bytes of a sector buffer\<close>
  | AssertFailed     \<comment> \<open>a failed \<open>ASSERT\<close>\<close>
  | Blocked          \<comment> \<open>\<open>cond_wait\<close> with no other thread to signal\<close>

text \<open>Modelled from the spec: the constants \<open>BLOCK_SECTOR_SIZE\<close> (devices/block.h) and
  \<open>NAME_MAX\<close> (filesys/directory.h), whose headers are not among the sources.\<close>

definition BLOCK_SECTOR_SIZE :: nat where "BLOCK_SECTOR_SIZE = 512"
definition NAME_MAX :: nat where "NAME_MAX = 14"

text \<open>filesys/inode.h\<close>

definition MAX_FILE_SIZE :: int where "MAX_FILE_SIZE = 8127488"
definition DIRECT_BLOCKS :: nat where "DIRECT_BLOCKS = 124"
definition BLOCKS_PER_SECTOR :: nat where "BLOCKS_PER_SECTOR = 125"

definition NO_SECTOR :: sector where "NO_SECTOR = - 1"

section \<open>The table of open inodes\<close>

text \<open>
  \<open>struct inode\<close> of filesys/inode.h. The list element and the lock carry no data; the
  field \<open>data\<close> is a pointer into the buffer cache that \<open>set_inode_data\<close> refreshes before
  every use, so the model reads the on-disk inode from the sector \<open>sector\<close> instead.
\<close>

record inode =
  sector :: sector
  open_cnt :: int
  removed :: bool
  deny_write_cnt :: int

text \<open>
  The state every layer shares: the list \<open>open_inodes\<close> (addresses, front first), the
  kernel heap holding the \<open>struct inode\<close>s, and the two collaborators that are not among
  the sources.

  Modelled from the spec: \<open>malloc\<close> either fails or returns memory that is not in use.
  \<open>mem\<close> lists the outcomes of the coming allocations (none left: success); \<open>next_addr\<close>
  is the next unused address.

  Modelled from the spec: the free map (filesys/free-map.c), "allocate(count, out_sector)
  -> bool" and "release(sector, count)", as a bitmap with one flag per sector of the
  device, set when the sector is in use. Only \<open>count = 1\<close> occurs.
\<close>

record itable =
  open_inodes :: "nat list"
  heap :: "nat \<Rightarrow> inode option"
  next_addr :: nat
  mem :: "bool list"
  free_map :: "bool list"

definition malloc :: "'a itable_scheme \<Rightarrow> ptr \<times> 'a itable_scheme" where
  "malloc st =
     (let ok = (case mem st of [] \<Rightarrow> True | b # _ \<Rightarrow> b);
          st1 = st\<lparr>mem := tl (mem st)\<rparr>
      in if ok then (Some (next_addr st1), st1\<lparr>next_addr := Suc (next_addr st1)\<rparr>)
         else (None, st1))"

fun first_free :: "bool list \<Rightarrow> nat option" where
  "first_free [] = None"
| "first_free (b # bs) = (if \<not> b then Some 0 else map_option Suc (first_free bs))"

definition free_map_allocate :: "'a itable_scheme \<Rightarrow> sector option \<times> 'a itable_scheme" where
  "free_map_allocate st =
     (case first_free (free_map st) of
        None \<Rightarrow> (None, st)
      | Some n \<Rightarrow> (Some (of_nat n), st\<lparr>free_map := (free_map st)[n := True]\<rparr>))"

definition free_map_release :: "sector \<Rightarrow> 'a itable_scheme \<Rightarrow> 'a itable_scheme" where
  "free_map_release s st = st\<lparr>free_map := (free_map st)[unat s := False]\<rparr>"

text \<open>\<open>inode_reopen\<close>: a null pointer is returned as it is.\<close>

definition inode_reopen :: "ptr \<Rightarrow> 'a itable_scheme \<Rightarrow> error + (ptr \<times> 'a itable_scheme)" where
  "inode_reopen p st =
     (case p of
        None \<Rightarrow> Inr (None, st)
      | Some a \<Rightarrow>
          (case heap st a of
             None \<Rightarrow> Inl Dangling
           | Some ino \<Rightarrow> Inr (Some a, st\<lparr>heap := (heap st)(a \<mapsto> ino\<lparr>open_cnt := open_cnt ino + 1\<rparr>)\<rparr>)))"

text \<open>The scan of \<open>open_inodes\<close> in \<open>inode_open\<close>: the first inode of the list at the
  sector.\<close>

fun find_open :: "(nat \<Rightarrow> inode option) \<Rightarrow> sector \<Rightarrow> nat list \<Rightarrow> error + ptr" where
  "find_open h s [] = Inr None"
| "find_open h s (a # as) =
     (case h a of
        None \<Rightarrow> Inl Dangling
      | Some ino \<Rightarrow> if sector ino = s then Inr (Some a) else find_open h s as)"

definition inode_open :: "sector \<Rightarrow> 'a itable_scheme \<Rightarrow> error + (ptr \<times> 'a itable_scheme)" where
  "inode_open s st =
     (case find_open (heap st) s (open_inodes st) of
        Inl e \<Rightarrow> Inl e
      | Inr (Some a) \<Rightarrow> inode_reopen (Some a) st
      | Inr None \<Rightarrow>
          (case malloc st of
             (None, st1) \<Rightarrow> Inr (None, st1)
           | (Some a, st1) \<Rightarrow>
               Inr (Some a,
                    st1\<lparr>open_inodes := a # open_inodes st1,
                        heap := (heap st1)(a \<mapsto>
                          \<lparr>sector = s, open_cnt = 1, removed = False, deny_write_cnt = 0\<rparr>)\<rparr>)))"

text \<open>\<open>inode_remove\<close>: the \<open>ASSERT (inode != NULL)\<close> is a branch.\<close>

definition inode_remove :: "ptr \<Rightarrow> 'a itable_scheme \<Rightarrow> error + 'a itable_scheme" where
  "inode_remove p st =
     (case p of
        None \<Rightarrow> Inl AssertFailed
      | Some a \<Rightarrow>
          (case heap st a of
             None \<Rightarrow> Inl Dangling
           | Some ino \<Rightarrow> Inr (st\<lparr>heap := (heap st)(a \<mapsto> ino\<lparr>removed := True\<rparr>)\<rparr>)))"

text \<open>
  \<open>inode_close\<close>, with the release of the blocks of a removed inode as the parameter
  \<open>dealloc\<close> (it works on the disk, which the layers below model each in its own way).
  The last closer unlinks the inode from the list, releases its blocks if it is removed,
  and frees the \<open>struct inode\<close>.
\<close>

definition inode_close_with ::
  "(inode \<Rightarrow> 'a itable_scheme \<Rightarrow> error + 'a itable_scheme) \<Rightarrow> ptr \<Rightarrow> 'a itable_scheme
     \<Rightarrow> error + 'a itable_scheme" where
  "inode_close_with dealloc p st =
     (case p of
        None \<Rightarrow> Inr st
      | Some a \<Rightarrow>
          (case heap st a of
             None \<Rightarrow> Inl Dangling
           | Some ino \<Rightarrow>
               (let ino1 = ino\<lparr>open_cnt := open_cnt ino - 1\<rparr>;
                    st1 = st\<lparr>heap := (heap st)(a \<mapsto> ino1)\<rparr>
                in if open_cnt ino1 = 0 then
                     (let st2 = st1\<lparr>open_inodes := removeAll a (open_inodes st1)\<rparr>
                      in case (if removed ino1 then dealloc ino1 st2 else Inr st2) of
                           Inl e \<Rightarrow> Inl e
                         | Inr st3 \<Rightarrow> Inr (st3\<lparr>heap := (heap st3)(a := None)\<rparr>))
                   else Inr st1)))"

section \<open>Sectors as seen through the buffer cache\<close>

text \<open>
  The inode layer reaches every sector through \<open>set_block_data\<close> and \<open>set_inode_data\<close>,
  which return a pointer to the 512 bytes of the cache slot that holds the sector. In
  this part the cache is transparent: \<open>store st s\<close> is the current content of sector \<open>s\<close>
  as the cache presents it, and a write through such a pointer updates it. The device is
  taken to hold every sector number. (The cache itself is modelled in its own section.)

  A sector buffer cast to \<open>block_sector_t *\<close> is an array of 128 little-endian 32-bit
  words (the target is 32-bit x86).
\<close>

type_synonym block = "byte list"

definition zero_block :: block where
  "zero_block = replicate 512 0"

definition bytes_of_word :: "32 word \<Rightarrow> byte list" where
  "bytes_of_word w = [ucast w, ucast (drop_bit 8 w), ucast (drop_bit 16 w), ucast (drop_bit 24 w)]"

definition word_of_bytes :: "byte list \<Rightarrow> 32 word" where
  "word_of_bytes bs = foldr (\<lambda>b w. ucast b OR push_bit 8 w) bs 0"

definition get32 :: "block \<Rightarrow> nat \<Rightarrow> 32 word" where
  "get32 b i = word_of_bytes (take 4 (drop (4 * i) b))"

definition put32 :: "block \<Rightarrow> nat \<Rightarrow> 32 word \<Rightarrow> block" where
  "put32 b i w = take (4 * i) b @ bytes_of_word w @ drop (4 * i + 4) b"

text \<open>
  \<open>struct inode_disk\<close> (filesys/inode.h) laid over a sector: \<open>length\<close> in bytes 0 to 3,
  \<open>is_dir\<close> in byte 4 (three bytes of padding follow), \<open>sectors[i]\<close> in the word \<open>2 + i\<close>.
\<close>

definition disk_length :: "block \<Rightarrow> int" where
  "disk_length b = sint (get32 b 0)"

definition disk_is_dir :: "block \<Rightarrow> bool" where
  "disk_is_dir b = (b ! 4 \<noteq> 0)"

definition disk_sectors :: "block \<Rightarrow> nat \<Rightarrow> sector" where
  "disk_sectors b i = get32 b (2 + i)"

definition set_disk_sectors :: "block \<Rightarrow> nat \<Rightarrow> sector \<Rightarrow> block" where
  "set_disk_sectors b i s = put32 b (2 + i) s"

definition set_disk_length :: "block \<Rightarrow> int \<Rightarrow> block" where
  "set_disk_length b n = put32 b 0 (word_of_int n)"

text \<open>The state of the inode layer. \<open>next_sector_to_read\<close> and
  \<open>next_sector_to_read_present\<close> are the globals of the cache that \<open>read_next_sector\<close>
  sets.\<close>

record fs = itable +
  store :: "sector \<Rightarrow> block"
  next_sector_to_read :: sector
  next_sector_to_read_present :: bool

definition write_block :: "sector \<Rightarrow> block \<Rightarrow> fs \<Rightarrow> fs" where
  "write_block s b st = st\<lparr>store := (store st)(s := b)\<rparr>"

text \<open>C arithmetic: \<open>/\<close> and \<open>%\<close> on \<open>int\<close> truncate towards zero; the conversion of an
  \<open>int\<close> to \<open>size_t\<close> is taken modulo \<open>2 ^ 32\<close>. Values of type \<open>off_t\<close> are modelled by
  \<open>int\<close>.\<close>

definition c_div :: "int \<Rightarrow> int \<Rightarrow> int" where
  "c_div a b = sgn a * sgn b * (\<bar>a\<bar> div \<bar>b\<bar>)"

definition c_mod :: "int \<Rightarrow> int \<Rightarrow> int" where
  "c_mod a b = a - b * c_div a b"

definition to_size_t :: "int \<Rightarrow> nat" where
  "to_size_t x = nat (x mod 2 ^ 32)"

section \<open>The block walker\<close>

text \<open>
  \<open>byte_to_indirect_sector (buff, inode, &block_data, &sector, idx)\<close>. The result is
  the returned pointer (\<open>True\<close>: not null), the sector that \<open>*block_data\<close> points into
  (\<open>None\<close>: the caller's local is still uninitialised), \<open>*sector\<close>, and the state.
  When the free map is full the function assigns \<open>NO_SECTOR\<close> to its own parameter
  \<open>sector\<close>, not to \<open>*sector\<close>, which keeps the 0 read from the inode, and returns null.
\<close>

definition byte_to_indirect_sector ::
  "bool \<Rightarrow> inode \<Rightarrow> nat \<Rightarrow> fs \<Rightarrow> bool \<times> sector option \<times> sector \<times> fs" where
  "byte_to_indirect_sector buff ino idx0 st =
     (let idx = (if idx0 \<ge> DIRECT_BLOCKS then DIRECT_BLOCKS else idx0);
          sec = disk_sectors (store st (sector ino)) idx
      in if sec = 0 then
           (case free_map_allocate st of
              (None, st1) \<Rightarrow> (False, None, sec, st1)
            | (Some s, st1) \<Rightarrow>
                (let st2 = write_block (sector ino)
                             (set_disk_sectors (store st1 (sector ino)) idx s) st1;
                     st3 = write_block s zero_block st2
                 in (buff, Some s, s, st3)))
         else (buff, Some sec, sec, st))"

text \<open>
  \<open>byte_to_double_indirect_sec (buff, &block_data, &sector, idx)\<close>: \<open>bd\<close> is the sector
  that \<open>*block_data\<close> points into on entry. The result is the sector it points into on
  return, \<open>*sector\<close>, and the state.

  \<open>*block_data\<close> points to the array \<open>block_data\<close> of a \<open>struct cache\<close>, 128 words, and the
  function does not test \<open>idx\<close>. Word 128 is the member that follows the array,
  \<open>disk_sector\<close>: the number of the sector the slot holds. Words 129 to 131 are the flags
  and the list element of the slot, which the transparent cache of this part does not
  have, and the words from 132 on lie outside the slot: a walk that reads them ends as
  \<open>OutOfBounds\<close>, and so does a store to word 128, which would overwrite \<open>disk_sector\<close>.
\<close>

definition byte_to_double_indirect_sec ::
  "bool \<Rightarrow> sector option \<Rightarrow> sector \<Rightarrow> nat \<Rightarrow> fs \<Rightarrow> error + (sector option \<times> sector \<times> fs)" where
  "byte_to_double_indirect_sec buff bd sec idx st =
     (case bd of
        None \<Rightarrow> Inl Uninitialised
      | Some b \<Rightarrow>
          if idx > 128 then Inl OutOfBounds
          else
            (let new_sector = sec;
                 sec1 = (if idx = 128 then b else get32 (store st b) idx)
             in if sec1 = 0 then
                  (case free_map_allocate st of
                     (None, st1) \<Rightarrow> Inr (Some b, sec1, st1)
                   | (Some s, st1) \<Rightarrow>
                       if buff \<and> idx = 128 then Inl OutOfBounds
                       else
                         (let st2 = (if buff
                                     then write_block new_sector
                                            (put32 (store st1 new_sector) idx s) st1
                                     else st1);
                              st3 = write_block s zero_block st2
                          in Inr (Some s, s, st3)))
                else Inr (Some sec1, sec1, st)))"

text \<open>
  \<open>byte_to_sector (inode, pos)\<close>. Its local \<open>buff\<close> is passed to
  \<open>byte_to_indirect_sector\<close> before it is initialised and comes back unchanged, or null
  when the allocation failed; \<open>buff0\<close> says whether that indeterminate pointer is not
  null.
\<close>

definition byte_to_sector :: "bool \<Rightarrow> inode \<Rightarrow> int \<Rightarrow> fs \<Rightarrow> error + (sector \<times> fs)" where
  "byte_to_sector buff0 ino pos st =
     (let idx = to_size_t (c_div pos (int BLOCK_SECTOR_SIZE))
      in case byte_to_indirect_sector buff0 ino idx st of
           (buff, bd, sec, st1) \<Rightarrow>
             if sec = NO_SECTOR then Inr (sec, st1)
             else if idx \<ge> DIRECT_BLOCKS then
               (let idx1 = to_size_t (pos - int (BLOCK_SECTOR_SIZE * DIRECT_BLOCKS))
                             div (BLOCKS_PER_SECTOR * BLOCK_SECTOR_SIZE)
                in case byte_to_double_indirect_sec buff bd sec idx1 st1 of
                     Inl e \<Rightarrow> Inl e
                   | Inr (bd2, sec2, st2) \<Rightarrow>
                       if sec2 = NO_SECTOR then Inr (sec2, st2)
                       else
                         (let idx2 = to_size_t (pos - int (BLOCK_SECTOR_SIZE * DIRECT_BLOCKS))
                                       div BLOCK_SECTOR_SIZE mod BLOCKS_PER_SECTOR
                          in case byte_to_double_indirect_sec buff bd2 sec2 idx2 st2 of
                               Inl e \<Rightarrow> Inl e
                             | Inr (bd3, sec3, st3) \<Rightarrow> Inr (sec3, st3)))
             else Inr (sec, st1))"

definition inode_length :: "inode \<Rightarrow> fs \<Rightarrow> int" where
  "inode_length ino st = disk_length (store st (sector ino))"

definition is_directory :: "inode \<Rightarrow> fs \<Rightarrow> bool" where
  "is_directory ino st = disk_is_dir (store st (sector ino))"

definition read_next_sector :: "sector \<Rightarrow> fs \<Rightarrow> fs" where
  "read_next_sector s st = st\<lparr>next_sector_to_read := s, next_sector_to_read_present := True\<rparr>"

definition start_read_ahead :: "bool \<Rightarrow> inode \<Rightarrow> int \<Rightarrow> fs \<Rightarrow> error + fs" where
  "start_read_ahead buff0 ino offset st =
     (if offset + int BLOCK_SECTOR_SIZE - 1 < inode_length ino st then
        (case byte_to_sector buff0 ino (offset + int BLOCK_SECTOR_SIZE - 1) st of
           Inl e \<Rightarrow> Inl e
         | Inr (sector_idx, st1) \<Rightarrow>
             if sector_idx \<noteq> NO_SECTOR then Inr (read_next_sector sector_idx st1) else Inr st1)
      else Inr st)"

section \<open>Reading and writing an inode\<close>

text \<open>
  The loop of \<open>inode_read_at\<close> (\<open>sz\<close> is the source's \<open>size\<close>). \<open>buffer\<close> holds the bytes copied out so far; the
  \<open>memcpy\<close> appends the chunk at \<open>buffer + bytes_read\<close>. The result is the buffer,
  \<open>bytes_read\<close>, the final \<open>offset\<close>, and the state. A negative \<open>sector_ofs\<close> makes the
  \<open>memcpy\<close> read in front of the sector buffer.
\<close>

function read_loop ::
  "bool \<Rightarrow> inode \<Rightarrow> int \<Rightarrow> int \<Rightarrow> byte list \<Rightarrow> int \<Rightarrow> fs \<Rightarrow> error + (byte list \<times> int \<times> int \<times> fs)" where
  "read_loop buff0 ino sz offset buffer bytes_read st =
     (if sz > 0 then
        (case byte_to_sector buff0 ino offset st of
           Inl e \<Rightarrow> Inl e
         | Inr (sector_idx, st1) \<Rightarrow>
             if sector_idx = NO_SECTOR then Inr (buffer, bytes_read, offset, st1)
             else
               (let sector_ofs = c_mod offset (int BLOCK_SECTOR_SIZE);
                    inode_left = inode_length ino st1 - offset;
                    sector_left = int BLOCK_SECTOR_SIZE - sector_ofs;
                    min_left = (if inode_left < sector_left then inode_left else sector_left);
                    chunk_size = (if sz < min_left then sz else min_left)
                in if chunk_size \<le> 0 then Inr (buffer, bytes_read, offset, st1)
                   else if sector_ofs < 0 then Inl OutOfBounds
                   else read_loop buff0 ino (sz - chunk_size) (offset + chunk_size)
                          (buffer @ take (nat chunk_size) (drop (nat sector_ofs) (store st1 sector_idx)))
                          (bytes_read + chunk_size) st1))
      else Inr (buffer, bytes_read, offset, st))"
  by pat_completeness auto
termination
  by (relation "measure (\<lambda>(buff0, ino, sz, offset, buffer, bytes_read, st). nat sz)")
     (auto split: if_splits)

definition inode_read_at ::
  "bool \<Rightarrow> inode \<Rightarrow> int \<Rightarrow> int \<Rightarrow> fs \<Rightarrow> error + (int \<times> byte list \<times> fs)" where
  "inode_read_at buff0 ino sz offset st =
     (if offset \<ge> inode_length ino st then Inr (0, [], st)
      else
        (case read_loop buff0 ino sz offset [] 0 st of
           Inl e \<Rightarrow> Inl e
         | Inr (buffer, bytes_read, offset1, st1) \<Rightarrow>
             (case start_read_ahead buff0 ino offset1 st1 of
                Inl e \<Rightarrow> Inl e
              | Inr st2 \<Rightarrow> Inr (bytes_read, buffer, st2))))"

text \<open>
  The loop of \<open>inode_write_at\<close>. \<open>buffer\<close> is the caller's data; the \<open>memcpy\<close> copies
  \<open>chunk_size\<close> bytes from \<open>buffer + bytes_written\<close> to \<open>sector_ofs\<close> in the sector, and
  must find them in the caller's buffer.
\<close>

definition copy_in :: "block \<Rightarrow> nat \<Rightarrow> byte list \<Rightarrow> block" where
  "copy_in b ofs chunk = take ofs b @ chunk @ drop (ofs + length chunk) b"

function write_loop ::
  "bool \<Rightarrow> inode \<Rightarrow> byte list \<Rightarrow> int \<Rightarrow> int \<Rightarrow> int \<Rightarrow> fs \<Rightarrow> error + (int \<times> int \<times> fs)" where
  "write_loop buff0 ino buffer sz offset bytes_written st =
     (if sz > 0 then
        (case byte_to_sector buff0 ino offset st of
           Inl e \<Rightarrow> Inl e
         | Inr (sector_idx, st1) \<Rightarrow>
             if sector_idx = NO_SECTOR then Inr (bytes_written, offset, st1)
             else
               (let sector_ofs = c_mod offset (int BLOCK_SECTOR_SIZE);
                    inode_left = MAX_FILE_SIZE - offset;
                    sector_left = int BLOCK_SECTOR_SIZE - sector_ofs;
                    min_left = (if inode_left < sector_left then inode_left else sector_left);
                    chunk_size = (if sz < min_left then sz else min_left)
                in if chunk_size \<le> 0 then Inr (bytes_written, offset, st1)
                   else if sector_ofs < 0 \<or> int (length buffer) < bytes_written + chunk_size
                   then Inl OutOfBounds
                   else write_loop buff0 ino buffer (sz - chunk_size) (offset + chunk_size)
                          (bytes_written + chunk_size)
                          (write_block sector_idx
                             (copy_in (store st1 sector_idx) (nat sector_ofs)
                                (take (nat chunk_size) (drop (nat bytes_written) buffer))) st1)))
      else Inr (bytes_written, offset, st))"
  by pat_completeness auto
termination
  by (relation "measure (\<lambda>(buff0, ino, buffer, sz, offset, bytes_written, st). nat sz)")
     (auto split: if_splits)

definition inode_write_at ::
  "bool \<Rightarrow> inode \<Rightarrow> byte list \<Rightarrow> int \<Rightarrow> int \<Rightarrow> fs \<Rightarrow> error + (int \<times> fs)" where
  "inode_write_at buff0 ino buffer sz offset st =
     (if deny_write_cnt ino \<noteq> 0 then Inr (0, st)
      else
        (case write_loop buff0 ino buffer sz offset 0 st of
           Inl e \<Rightarrow> Inl e
         | Inr (bytes_written, offset1, st1) \<Rightarrow>
             if offset1 > inode_length ino st1
             then Inr (bytes_written,
                       write_block (sector ino) (set_disk_length (store st1 (sector ino)) offset1) st1)
             else Inr (bytes_written, st1)))"

text \<open>\<open>inode_create\<close>: the zeroed \<open>struct inode_disk\<close> with its length and kind is copied
  into the sector.\<close>

definition inode_create :: "sector \<Rightarrow> int \<Rightarrow> bool \<Rightarrow> fs \<Rightarrow> error + (bool \<times> fs)" where
  "inode_create s len dir st =
     (if len < 0 then Inl AssertFailed
      else
        (case malloc st of
           (None, st1) \<Rightarrow> Inr (False, st1)
         | (Some a, st1) \<Rightarrow>
             (let disk_inode = set_disk_length (zero_block[4 := (if dir then 1 else 0)]) len
              in Inr (True, write_block s disk_inode st1))))"

section \<open>Closing an inode\<close>

text \<open>
  The release of the blocks in \<open>inode_close\<close>. The direct sectors that are not 0 are
  released first. If \<open>sectors[124]\<close> is not 0, the loop that follows declares the pointer
  \<open>block_data\<close> and passes its value, not its address, to \<open>set_block_data\<close> with \<open>is_data\<close>
  true, which stores through it (\<open>*block_data = ...\<close>); the next statement loads
  \<open>block_data[i]\<close>. The pointer is uninitialised, so the first turn of the loop ends the
  run (\<open>Uninitialised\<close>).
\<close>

definition release_direct :: "inode \<Rightarrow> nat \<Rightarrow> fs \<Rightarrow> fs" where
  "release_direct ino i st =
     (if disk_sectors (store st (sector ino)) i \<noteq> 0
      then free_map_release (disk_sectors (store st (sector ino)) i) st else st)"

definition release_blocks :: "inode \<Rightarrow> fs \<Rightarrow> error + fs" where
  "release_blocks ino st =
     (let single_indirect_block = disk_sectors (store st (sector ino)) DIRECT_BLOCKS;
          st1 = fold (release_direct ino) [0 ..< DIRECT_BLOCKS] st
      in if single_indirect_block \<noteq> 0 then Inl Uninitialised else Inr st1)"

definition inode_close :: "ptr \<Rightarrow> fs \<Rightarrow> error + fs" where
  "inode_close = inode_close_with release_blocks"

section \<open>Sequences of calls on the table of open inodes\<close>

text \<open>A call of \<open>inode_open\<close>, \<open>inode_reopen\<close> or \<open>inode_close\<close>, and a sequence of them run
  from a state; a call on a pointer to freed memory ends the run.\<close>

datatype call = Open sector | Reopen ptr | Close ptr

fun do_call :: "call \<Rightarrow> fs \<Rightarrow> error + fs" where
  "do_call (Open s) st = map_sum id snd (inode_open s st)"
| "do_call (Reopen p) st = map_sum id snd (inode_reopen p st)"
| "do_call (Close p) st = inode_close p st"

fun run_calls :: "call list \<Rightarrow> fs \<Rightarrow> error + fs" where
  "run_calls [] st = Inr st"
| "run_calls (c # cs) st = (case do_call c st of Inl e \<Rightarrow> Inl e | Inr st1 \<Rightarrow> run_calls cs st1)"

definition one_inode_per_sector :: "'a itable_scheme \<Rightarrow> bool" where
  "one_inode_per_sector st \<longleftrightarrow>
     distinct (open_inodes st) \<and>
     (\<forall>a. (heap st a \<noteq> None) = (a \<in> set (open_inodes st))) \<and>
     (\<forall>a. next_addr st \<le> a \<longrightarrow> heap st a = None) \<and>
     (\<forall>a b x y. heap st a = Some x \<and> heap st b = Some y \<and> sector x = sector y \<longrightarrow> a = b)"

text \<open>An example state: no open inode, a device of \<open>n + 2\<close> sectors of which sectors 0 and 1
  are in use, every sector zeroed.\<close>

definition blank_fs :: "nat \<Rightarrow> fs" where
  "blank_fs n =
     \<lparr>open_inodes = [], heap = (\<lambda>a. None), next_addr = 0, mem = [],
      free_map = True # True # replicate n False,
      store = (\<lambda>s. zero_block), next_sector_to_read = 0, next_sector_to_read_present = False\<rparr>"

section \<open>Directories and path resolution\<close>

text \<open>
  The directory layer reads and writes a directory through \<open>inode_read_at\<close> and
  \<open>inode_write_at\<close>, one \<open>struct dir_entry\<close> at a time.

  Modelled from the spec: \<open>struct dir_entry\<close> (filesys/directory.h is not among the
  sources), with the fields \<open>in_use\<close>, \<open>name\<close> and \<open>inode_sector\<close>. Its layout in the
  sector being unknown, this layer is modelled over the records themselves: \<open>recs st s\<close>
  is the sequence of whole records that \<open>inode_read_at\<close> yields from the inode at sector
  \<open>s\<close> at the offsets \<open>0, sizeof e, 2 * sizeof e, ...\<close> until it returns a short count,
  and \<open>isdir st s\<close> is the \<open>is_dir\<close> flag of the on-disk inode. The blocks that the last
  close of a removed inode releases are not visible at this level.

  \<open>cwd\<close> is \<open>thread_current ()->curr_inode\<close>.
\<close>

record dir_entry =
  inode_sector :: sector
  name :: string
  in_use :: bool

record ns = itable +
  recs :: "sector \<Rightarrow> dir_entry list"
  isdir :: "sector \<Rightarrow> bool"
  cwd :: ptr

text \<open>\<open>struct dir\<close>: the fields \<open>inode\<close> and \<open>pos\<close> are \<open>dir_inode\<close> and \<open>dir_pos\<close> here.\<close>

record dir =
  dir_inode :: nat
  dir_pos :: int

definition ns_inode_close :: "ptr \<Rightarrow> ns \<Rightarrow> error + ns" where
  "ns_inode_close = inode_close_with (\<lambda>ino st. Inr st)"

definition ns_is_directory :: "ptr \<Rightarrow> ns \<Rightarrow> error + bool" where
  "ns_is_directory p st =
     (case p of
        None \<Rightarrow> Inl NullDeref
      | Some a \<Rightarrow> (case heap st a of None \<Rightarrow> Inl Dangling | Some ino \<Rightarrow> Inr (isdir st (sector ino))))"

definition dir_open :: "ptr \<Rightarrow> ns \<Rightarrow> error + (dir option \<times> ns)" where
  "dir_open p st =
     (case malloc st of
        (d, st1) \<Rightarrow>
          (case (p, d) of
             (Some a, Some _) \<Rightarrow> Inr (Some \<lparr>dir_inode = a, dir_pos = 0\<rparr>, st1)
           | _ \<Rightarrow>
               (case ns_inode_close p st1 of
                  Inl e \<Rightarrow> Inl e
                | Inr st2 \<Rightarrow> Inr (None, st2))))"

definition dir_close :: "dir option \<Rightarrow> ns \<Rightarrow> error + ns" where
  "dir_close d st =
     (case d of None \<Rightarrow> Inr st | Some dr \<Rightarrow> ns_inode_close (Some (dir_inode dr)) st)"

text \<open>The loop of \<open>lookup\<close>: the first record in use with the name, and its offset counted
  in records.\<close>

fun find_entry :: "string \<Rightarrow> dir_entry list \<Rightarrow> nat \<Rightarrow> (dir_entry \<times> nat) option" where
  "find_entry nm [] ofs = None"
| "find_entry nm (e # es) ofs =
     (if in_use e \<and> nm = name e then Some (e, ofs) else find_entry nm es (Suc ofs))"

definition lookup :: "dir \<Rightarrow> string \<Rightarrow> ns \<Rightarrow> error + (dir_entry \<times> nat) option" where
  "lookup d nm st =
     (case heap st (dir_inode d) of
        None \<Rightarrow> Inl Dangling
      | Some ino \<Rightarrow> Inr (find_entry nm (recs st (sector ino)) 0))"

definition dir_lookup :: "dir \<Rightarrow> string \<Rightarrow> ns \<Rightarrow> error + (bool \<times> ptr \<times> ns)" where
  "dir_lookup d nm st =
     (case lookup d nm st of
        Inl e \<Rightarrow> Inl e
      | Inr None \<Rightarrow> Inr (False, None, st)
      | Inr (Some (e, ofs)) \<Rightarrow>
          (case inode_open (inode_sector e) st of
             Inl e \<Rightarrow> Inl e
           | Inr (p, st1) \<Rightarrow> Inr (p \<noteq> None, p, st1)))"

text \<open>\<open>inode_write_at\<close> of one record at the offset of record \<open>i\<close>, an existing one or the
  one at the end of the file: refused when writes to the inode are denied.\<close>

definition write_entry :: "inode \<Rightarrow> nat \<Rightarrow> dir_entry \<Rightarrow> ns \<Rightarrow> bool \<times> ns" where
  "write_entry ino i e st =
     (if deny_write_cnt ino \<noteq> 0 then (False, st)
      else
        (let es = recs st (sector ino);
             es1 = (if i < length es then es[i := e] else es @ [e])
         in (True, st\<lparr>recs := (recs st)(sector ino := es1)\<rparr>)))"

fun first_unused :: "dir_entry list \<Rightarrow> nat \<Rightarrow> nat" where
  "first_unused [] ofs = ofs"
| "first_unused (e # es) ofs = (if \<not> in_use e then ofs else first_unused es (Suc ofs))"

definition dir_add :: "dir \<Rightarrow> string \<Rightarrow> sector \<Rightarrow> ns \<Rightarrow> error + (bool \<times> ns)" where
  "dir_add d nm s st =
     (if nm = [] \<or> length nm > NAME_MAX then Inr (False, st)
      else
        (case lookup d nm st of
           Inl e \<Rightarrow> Inl e
         | Inr (Some _) \<Rightarrow> Inr (False, st)
         | Inr None \<Rightarrow>
             (case heap st (dir_inode d) of
                None \<Rightarrow> Inl Dangling
              | Some ino \<Rightarrow>
                  (let ofs = first_unused (recs st (sector ino)) 0;
                       e = \<lparr>inode_sector = s, name = nm, in_use = True\<rparr>
                   in Inr (write_entry ino ofs e st)))))"

definition dir_remove :: "dir \<Rightarrow> string \<Rightarrow> ns \<Rightarrow> error + (bool \<times> ns)" where
  "dir_remove d nm st =
     (case lookup d nm st of
        Inl e \<Rightarrow> Inl e
      | Inr None \<Rightarrow> Inr (False, st)
      | Inr (Some (e, ofs)) \<Rightarrow>
          (case inode_open (inode_sector e) st of
             Inl e \<Rightarrow> Inl e
           | Inr (None, st1) \<Rightarrow> Inr (False, st1)
           | Inr (Some a, st1) \<Rightarrow>
               (case heap st1 (dir_inode d) of
                  None \<Rightarrow> Inl Dangling
                | Some ino \<Rightarrow>
                    (case write_entry ino ofs (e\<lparr>in_use := False\<rparr>) st1 of
                       (False, st2) \<Rightarrow>
                         (case ns_inode_close (Some a) st2 of
                            Inl e \<Rightarrow> Inl e
                          | Inr st3 \<Rightarrow> Inr (False, st3))
                     | (True, st2) \<Rightarrow>
                         (case inode_remove (Some a) st2 of
                            Inl e \<Rightarrow> Inl e
                          | Inr st3 \<Rightarrow>
                              (case ns_inode_close (Some a) st3 of
                                 Inl e \<Rightarrow> Inl e
                               | Inr st4 \<Rightarrow> Inr (True, st4)))))))"

text \<open>\<open>is_empty_dir\<close>: the records from the third on.\<close>

fun none_in_use :: "dir_entry list \<Rightarrow> bool" where
  "none_in_use [] = True"
| "none_in_use (e # es) = (if in_use e then False else none_in_use es)"

definition is_empty_dir :: "ptr \<Rightarrow> ns \<Rightarrow> error + bool" where
  "is_empty_dir p st =
     (case p of
        None \<Rightarrow> Inl NullDeref
      | Some a \<Rightarrow>
          (case heap st a of
             None \<Rightarrow> Inl Dangling
           | Some ino \<Rightarrow> Inr (none_in_use (drop 2 (recs st (sector ino))))))"

text \<open>
  \<open>trace_path\<close>. A path is the list of the characters in front of the terminating
  \<open>'\0'\<close>. The result is \<open>None\<close> for the null pointer, or else the rest of the path,
  \<open>too_long\<close> and the name copied to \<open>dir_name\<close>; \<open>buf\<close> says whether \<open>dir_name\<close> is a
  buffer (not a null pointer).
\<close>

definition trace_path :: "string \<Rightarrow> bool \<Rightarrow> error + (string \<times> bool \<times> string) option" where
  "trace_path path buf =
     (if path = [] then Inr None
      else
        (let p1 = dropWhile (\<lambda>c. c = CHR ''/'') path
         in if p1 = [] then Inr None
            else
              (let comp = takeWhile (\<lambda>c. c \<noteq> CHR ''/'') p1;
                   rest = dropWhile (\<lambda>c. c \<noteq> CHR ''/'') p1
               in if \<not> buf then Inl NullDeref
                  else if length comp > NAME_MAX then Inr (Some (rest, True, take NAME_MAX comp))
                  else Inr (Some (rest, False, comp)))))"

text \<open>
  The loop of \<open>retrieve_dir_from_location\<close>. \<open>d\<close> is \<open>dir\<close> (null when \<open>dir_open\<close>
  failed) and \<open>file_name\<close> the content of the caller's buffer. Both \<open>break\<close>s leave the
  loop for the two \<open>return\<close>s that follow it.
\<close>

function retrieve_loop ::
  "string \<Rightarrow> bool \<Rightarrow> bool \<Rightarrow> dir option \<Rightarrow> string \<Rightarrow> ns \<Rightarrow> error + (dir option \<times> string \<times> ns)" where
  "retrieve_loop path buf is_parent d file_name st =
     (case trace_path path buf of
        Inl e \<Rightarrow> Inl e
      | Inr None \<Rightarrow> Inr (if is_parent then None else d, file_name, st)
      | Inr (Some (rest, too_long, nm)) \<Rightarrow>
          if too_long then Inr (if is_parent then None else d, nm, st)
          else
            (case d of
               None \<Rightarrow> Inl NullDeref
             | Some dr \<Rightarrow>
                 (case heap st (dir_inode dr) of
                    None \<Rightarrow> Inl Dangling
                  | Some ino \<Rightarrow>
                      if removed ino then Inr (None, nm, st)
                      else if is_parent \<and> rest = [] then Inr (Some dr, nm, st)
                      else
                        (case dir_lookup dr nm st of
                           Inl e \<Rightarrow> Inl e
                         | Inr (found, temp, st1) \<Rightarrow>
                             (case ns_inode_close (Some (dir_inode dr)) st1 of
                                Inl e \<Rightarrow> Inl e
                              | Inr st2 \<Rightarrow>
                                  if \<not> found then Inr (None, nm, st2)
                                  else
                                    (case temp of
                                       None \<Rightarrow> Inl NullDeref
                                     | Some t \<Rightarrow>
                                         retrieve_loop rest buf is_parent
                                           (Some (dr\<lparr>dir_inode := t\<rparr>)) nm st2))))))"
  by pat_completeness auto

lemma trace_path_shorter:
  assumes "trace_path path buf = Inr (Some (rest, too_long, nm))"
  shows "length rest < length path"
proof -
  define p1 where "p1 = dropWhile (\<lambda>c. c = CHR ''/'') path"
  from assms have ne: "p1 \<noteq> []" and rest: "rest = dropWhile (\<lambda>c. c \<noteq> CHR ''/'') p1"
    by (auto simp: trace_path_def Let_def p1_def split: if_splits)
  from ne have "hd p1 \<noteq> CHR ''/''"
    unfolding p1_def by (metis (mono_tags, lifting) hd_dropWhile)
  with ne have "length (dropWhile (\<lambda>c. c \<noteq> CHR ''/'') p1) < length p1"
    by (cases p1) (auto intro: le_imp_less_Suc length_dropWhile_le)
  moreover have "length p1 \<le> length path"
    unfolding p1_def by (rule length_dropWhile_le)
  ultimately show ?thesis using rest by simp
qed

termination retrieve_loop
  by (relation "measure (\<lambda>(path, buf, is_parent, d, file_name, st). length path)")
     (auto dest: trace_path_shorter)

text \<open>\<open>retrieve_dir_from_location (path, file_name, is_parent)\<close>, with \<open>ROOT_DIR_SECTOR\<close>
  (filesys/filesys.h) as the parameter \<open>root\<close>. The result is the directory (or null),
  the content of \<open>file_name\<close> (empty while nothing was copied to it), and the state.\<close>

definition retrieve_dir_from_location ::
  "sector \<Rightarrow> string \<Rightarrow> bool \<Rightarrow> bool \<Rightarrow> ns \<Rightarrow> error + (dir option \<times> string \<times> ns)" where
  "retrieve_dir_from_location root path buf is_parent st =
     (if path = [] then Inr (None, [], st)
      else
        (case (if hd path = CHR ''/'' then inode_open root st else inode_reopen (cwd st) st) of
           Inl e \<Rightarrow> Inl e
         | Inr (p, st1) \<Rightarrow>
             (case dir_open p st1 of
                Inl e \<Rightarrow> Inl e
              | Inr (d, st2) \<Rightarrow> retrieve_loop path buf is_parent d [] st2)))"

section \<open>The entry points of the file system\<close>

text \<open>The inode layer as this level sees it: \<open>inode_create\<close> leaves an inode whose data
  are \<open>length\<close> zero bytes, which read as records that are not in use.
  \<open>DIR_ENTRY_SIZE\<close> is \<open>sizeof (struct dir_entry)\<close>: a sector number, \<open>NAME_MAX + 1\<close>
  characters and a flag.\<close>

definition DIR_ENTRY_SIZE :: int where "DIR_ENTRY_SIZE = 20"

definition ns_inode_create :: "sector \<Rightarrow> int \<Rightarrow> bool \<Rightarrow> ns \<Rightarrow> error + (bool \<times> ns)" where
  "ns_inode_create s len is_dir st =
     (if len < 0 then Inl AssertFailed
      else
        (case malloc st of
           (None, st1) \<Rightarrow> Inr (False, st1)
         | (Some a, st1) \<Rightarrow>
             Inr (True,
                  st1\<lparr>recs := (recs st1)(s := replicate (nat (len div DIR_ENTRY_SIZE))
                                               \<lparr>inode_sector = 0, name = [], in_use = False\<rparr>),
                      isdir := (isdir st1)(s := is_dir)\<rparr>)))"

text \<open>The label \<open>done\<close> of \<open>filesys_remove\<close>. (In \<open>filesys_create\<close> below, \<open>isec\<close> is the
  local \<open>inode_sector\<close>.)\<close>

definition filesys_remove_done :: "bool \<Rightarrow> ptr \<Rightarrow> dir \<Rightarrow> ns \<Rightarrow> error + (bool \<times> ns)" where
  "filesys_remove_done success file d st =
     (case (if file \<noteq> None then ns_inode_close file st else Inr st) of
        Inl e \<Rightarrow> Inl e
      | Inr st1 \<Rightarrow>
          (case dir_close (Some d) st1 of
             Inl e \<Rightarrow> Inl e
           | Inr st2 \<Rightarrow> Inr (success, st2)))"

definition filesys_remove :: "sector \<Rightarrow> string \<Rightarrow> ns \<Rightarrow> error + (bool \<times> ns)" where
  "filesys_remove root nm st =
     (case malloc st of
        (file_name, st0) \<Rightarrow>
          (case retrieve_dir_from_location root nm (file_name \<noteq> None) True st0 of
             Inl e \<Rightarrow> Inl e
           | Inr (None, fname, st1) \<Rightarrow> Inr (False, st1)
           | Inr (Some d, fname, st1) \<Rightarrow>
               (case dir_lookup d fname st1 of
                  Inl e \<Rightarrow> Inl e
                | Inr (found, file, st2) \<Rightarrow>
                    if \<not> found then filesys_remove_done False file d st2
                    else
                      (case ns_is_directory file st2 of
                         Inl e \<Rightarrow> Inl e
                       | Inr isd \<Rightarrow>
                           (case (if isd then is_empty_dir file st2 else Inr True) of
                              Inl e \<Rightarrow> Inl e
                            | Inr is_empty \<Rightarrow>
                                if isd \<and> \<not> is_empty then filesys_remove_done False file d st2
                                else
                                  (case dir_remove d fname st2 of
                                     Inl e \<Rightarrow> Inl e
                                   | Inr (removed_ok, st3) \<Rightarrow>
                                       filesys_remove_done True file d st3))))))"

definition filesys_create :: "sector \<Rightarrow> string \<Rightarrow> int \<Rightarrow> ns \<Rightarrow> error + (bool \<times> ns)" where
  "filesys_create root nm initial_size st =
     (case malloc st of
        (file_name, st0) \<Rightarrow>
          (case retrieve_dir_from_location root nm (file_name \<noteq> None) True st0 of
             Inl e \<Rightarrow> Inl e
           | Inr (None, fname, st1) \<Rightarrow> Inr (False, st1)
           | Inr (Some d, fname, st1) \<Rightarrow>
               (case free_map_allocate st1 of
                  (None, st2) \<Rightarrow>
                    (case dir_close (Some d) st2 of
                       Inl e \<Rightarrow> Inl e
                     | Inr st3 \<Rightarrow> Inr (False, st3))
                | (Some isec, st2) \<Rightarrow>
                    (case ns_inode_create isec initial_size False st2 of
                       Inl e \<Rightarrow> Inl e
                     | Inr (created, st3) \<Rightarrow>
                         (case (if created then dir_add d fname isec st3
                                else Inr (False, st3)) of
                            Inl e \<Rightarrow> Inl e
                          | Inr (success, st4) \<Rightarrow>
                              (let st5 = (if \<not> success \<and> isec \<noteq> 0
                                          then free_map_release isec st4 else st4)
                               in case dir_close (Some d) st5 of
                                    Inl e \<Rightarrow> Inl e
                                  | Inr st6 \<Rightarrow> Inr (success, st6)))))))"

text \<open>\<open>filesys_open\<close>, up to its call of \<open>file_open\<close> (filesys/file.c): the result is the
  inode handed to \<open>file_open\<close>, or null where \<open>filesys_open\<close> returns null itself.\<close>

definition filesys_open :: "sector \<Rightarrow> string \<Rightarrow> ns \<Rightarrow> error + (ptr \<times> ns)" where
  "filesys_open root nm st =
     (case malloc st of
        (file_name, st0) \<Rightarrow>
          (case retrieve_dir_from_location root nm (file_name \<noteq> None) False st0 of
             Inl e \<Rightarrow> Inl e
           | Inr (None, fname, st1) \<Rightarrow> Inr (None, st1)
           | Inr (Some d, fname, st1) \<Rightarrow>
               if last nm = CHR ''/'' then
                 (case ns_is_directory (Some (dir_inode d)) st1 of
                    Inl e \<Rightarrow> Inl e
                  | Inr isd \<Rightarrow>
                      if \<not> isd then
                        (case dir_close (Some d) st1 of
                           Inl e \<Rightarrow> Inl e
                         | Inr st2 \<Rightarrow> Inr (None, st2))
                      else Inr (Some (dir_inode d), st1))
               else Inr (Some (dir_inode d), st1)))"

text \<open>An example state: no open inode, a root directory at sector 1 with the entries
  \<open>.\<close> and \<open>..\<close>, and no current directory.\<close>

definition blank_ns :: ns where
  "blank_ns =
     \<lparr>open_inodes = [], heap = (\<lambda>a. None), next_addr = 0, mem = [],
      free_map = [True, True, False, False, False, False],
      recs = (\<lambda>s. if s = 1 then [\<lparr>inode_sector = 1, name = ''.'', in_use = True\<rparr>,
                                  \<lparr>inode_sector = 1, name = ''..'', in_use = True\<rparr>] else []),
      isdir = (\<lambda>s. s = 1), cwd = None\<rparr>"

text \<open>The table is in order when, besides, every live inode has an opener.\<close>

definition table_ok :: "'a itable_scheme \<Rightarrow> bool" where
  "table_ok st \<longleftrightarrow> one_inode_per_sector st \<and> (\<forall>a x. heap st a = Some x \<longrightarrow> 1 \<le> open_cnt x)"

text \<open>An example state: the root directory at sector 1 holds the directory \<open>d\<close> at sector
  2, which holds the file \<open>x\<close> at sector 3.\<close>

definition dir_ns :: ns where
  "dir_ns =
     \<lparr>open_inodes = [], heap = (\<lambda>a. None), next_addr = 0, mem = [],
      free_map = [True, True, True, True, False, False],
      recs = (\<lambda>s. if s = 1 then [\<lparr>inode_sector = 1, name = ''.'', in_use = True\<rparr>,
                                  \<lparr>inode_sector = 1, name = ''..'', in_use = True\<rparr>,
                                  \<lparr>inode_sector = 2, name = ''d'', in_use = True\<rparr>]
                   else if s = 2 then [\<lparr>inode_sector = 2, name = ''.'', in_use = True\<rparr>,
                                  \<lparr>inode_sector = 1, name = ''..'', in_use = True\<rparr>,
                                  \<lparr>inode_sector = 3, name = ''x'', in_use = True\<rparr>]
                   else []),
      isdir = (\<lambda>s. s = 1 \<or> s = 2), cwd = None\<rparr>"

section \<open>Files with and without holes\<close>

text \<open>The byte at \<open>pos\<close> is mapped when every sector pointer on the walk of
  \<open>byte_to_sector\<close> to it holds a sector: none is 0 (not allocated) or \<open>NO_SECTOR\<close>, and
  the walk stays inside the sector buffers.\<close>

definition present :: "sector \<Rightarrow> bool" where
  "present s \<longleftrightarrow> s \<noteq> 0 \<and> s \<noteq> NO_SECTOR"

definition mapped :: "fs \<Rightarrow> inode \<Rightarrow> int \<Rightarrow> bool" where
  "mapped st ino pos =
     (let idx = to_size_t (c_div pos (int BLOCK_SECTOR_SIZE));
          b = store st (sector ino)
      in if idx < DIRECT_BLOCKS then present (disk_sectors b idx)
         else
           (let root = disk_sectors b DIRECT_BLOCKS;
                idx1 = to_size_t (pos - int (BLOCK_SECTOR_SIZE * DIRECT_BLOCKS))
                         div (BLOCKS_PER_SECTOR * BLOCK_SECTOR_SIZE);
                idx2 = to_size_t (pos - int (BLOCK_SECTOR_SIZE * DIRECT_BLOCKS))
                         div BLOCK_SECTOR_SIZE mod BLOCKS_PER_SECTOR;
                mid = get32 (store st root) idx1
            in present root \<and> idx1 < 128 \<and> present mid \<and> present (get32 (store st mid) idx2)))"

text \<open>Where the loop of \<open>inode_read_at\<close> stops when every sector it asks for is there:
  at \<open>offset\<close> when \<open>sz\<close> is not positive, else at the end of the request or at the length
  of the file, whichever comes first.\<close>

definition read_end :: "inode \<Rightarrow> fs \<Rightarrow> int \<Rightarrow> int \<Rightarrow> int" where
  "read_end ino st sz offset =
     (if sz \<le> 0 then offset
      else if offset + sz < inode_length ino st then offset + sz else inode_length ino st)"

text \<open>Example states: the inode just opened on a sector, and the states after
  \<open>inode_create (1, 5, false)\<close> and after \<open>inode_create (1, 600, false)\<close> on the blank
  device, files of 5 and of 600 bytes none of whose sectors is allocated.\<close>

definition opened :: "sector \<Rightarrow> inode" where
  "opened s = \<lparr>sector = s, open_cnt = 1, removed = False, deny_write_cnt = 0\<rparr>"

definition hole_file :: fs where
  "hole_file = snd (projr (inode_create 1 5 False (blank_fs 6)))"

definition sparse_file :: fs where
  "sparse_file = snd (projr (inode_create 1 600 False (blank_fs 6)))"

section \<open>The tree of sectors of a file\<close>

text \<open>
  The pointers that \<open>byte_to_sector\<close> follows are named by slots: \<open>Direct i\<close> is
  \<open>sectors[i]\<close> of the inode sector (\<open>i < 124\<close>), \<open>Root\<close> is \<open>sectors[124]\<close>, \<open>Mid j\<close> is
  word \<open>j\<close> of the sector that \<open>Root\<close> holds, and \<open>Leaf j m\<close> is word \<open>m\<close> of the sector that
  \<open>Mid j\<close> holds. \<open>Direct\<close> and \<open>Leaf\<close> slots hold data sectors. A slot under an empty slot
  reads as 0.
\<close>

definition sector_used :: "fs \<Rightarrow> sector \<Rightarrow> bool" where
  "sector_used st s \<longleftrightarrow> unat s < length (free_map st) \<and> free_map st ! unat s"

datatype slot = Direct nat | Root | Mid nat | Leaf nat nat

fun valid_slot :: "slot \<Rightarrow> bool" where
  "valid_slot (Direct i) = (i < 124)"
| "valid_slot Root = True"
| "valid_slot (Mid j) = (j < 128)"
| "valid_slot (Leaf j m) = (j < 128 \<and> m < 125)"

fun data_slot :: "slot \<Rightarrow> bool" where
  "data_slot (Direct i) = True"
| "data_slot (Leaf j m) = True"
| "data_slot sl = False"

definition root_ptr :: "fs \<Rightarrow> inode \<Rightarrow> sector" where
  "root_ptr st ino = disk_sectors (store st (sector ino)) 124"

definition mid_ptr :: "fs \<Rightarrow> inode \<Rightarrow> nat \<Rightarrow> sector" where
  "mid_ptr st ino j = (if root_ptr st ino = 0 then 0 else get32 (store st (root_ptr st ino)) j)"

fun slot_ptr :: "fs \<Rightarrow> inode \<Rightarrow> slot \<Rightarrow> sector" where
  "slot_ptr st ino (Direct i) = disk_sectors (store st (sector ino)) i"
| "slot_ptr st ino Root = root_ptr st ino"
| "slot_ptr st ino (Mid j) = mid_ptr st ino j"
| "slot_ptr st ino (Leaf j m) =
     (if mid_ptr st ino j = 0 then 0 else get32 (store st (mid_ptr st ino j)) m)"

text \<open>The sector and the word in it where the pointer of a slot is kept.\<close>

fun slot_block :: "fs \<Rightarrow> inode \<Rightarrow> slot \<Rightarrow> sector" where
  "slot_block st ino (Direct i) = sector ino"
| "slot_block st ino Root = sector ino"
| "slot_block st ino (Mid j) = root_ptr st ino"
| "slot_block st ino (Leaf j m) = mid_ptr st ino j"

fun slot_word :: "slot \<Rightarrow> nat" where
  "slot_word (Direct i) = 2 + i"
| "slot_word Root = 126"
| "slot_word (Mid j) = j"
| "slot_word (Leaf j m) = m"

text \<open>The slot above a slot has a sector.\<close>

fun parent_present :: "fs \<Rightarrow> inode \<Rightarrow> slot \<Rightarrow> bool" where
  "parent_present st ino (Mid j) = (root_ptr st ino \<noteq> 0)"
| "parent_present st ino (Leaf j m) = (mid_ptr st ino j \<noteq> 0)"
| "parent_present st ino sl = True"

text \<open>
  A file is well formed in a state when every sector has 512 bytes, the free map has
  fewer than \<open>2 ^ 32\<close> entries and marks sector 0 and the inode sector as used, every
  sector that a slot holds is marked as used and is not the inode sector, and no sector
  is held by two slots.
\<close>

definition inode_wf :: "fs \<Rightarrow> inode \<Rightarrow> bool" where
  "inode_wf st ino \<longleftrightarrow>
     (\<forall>s. length (store st s) = 512) \<and>
     length (free_map st) < 2 ^ 32 \<and> sector_used st 0 \<and> sector_used st (sector ino) \<and>
     (\<forall>sl. valid_slot sl \<and> slot_ptr st ino sl \<noteq> 0 \<longrightarrow>
         sector_used st (slot_ptr st ino sl) \<and> slot_ptr st ino sl \<noteq> sector ino) \<and>
     (\<forall>sl sl'. valid_slot sl \<and> valid_slot sl' \<and> slot_ptr st ino sl \<noteq> 0 \<and>
         slot_ptr st ino sl = slot_ptr st ino sl' \<longrightarrow> sl = sl')"

text \<open>
  \<open>link\<close> is the allocation step that both functions of the walk share: entry \<open>n\<close> of the
  free map is taken, the new sector \<open>s\<close> is written into word \<open>w\<close> of the sector \<open>par\<close>, and
  \<open>s\<close> is zeroed. \<open>ensure\<close> is what one level of the walk does to a slot: a slot with a
  sector is left alone, an empty one is linked to the first free sector, and nothing
  happens when no sector is free. \<open>walk\<close> is the walk of \<open>byte_to_sector\<close> to a byte, and
  \<open>pos_slot\<close> the slot of the data sector it ends in.
\<close>

definition link :: "sector \<Rightarrow> sector \<Rightarrow> nat \<Rightarrow> nat \<Rightarrow> fs \<Rightarrow> fs" where
  "link s par w n st =
     write_block s zero_block
       (write_block par (put32 (store st par) w s) (st\<lparr>free_map := (free_map st)[n := True]\<rparr>))"

definition ensure :: "fs \<Rightarrow> inode \<Rightarrow> slot \<Rightarrow> fs" where
  "ensure st ino t =
     (if slot_ptr st ino t \<noteq> 0 then st
      else case first_free (free_map st) of
             None \<Rightarrow> st
           | Some n \<Rightarrow> link (of_nat n) (slot_block st ino t) (slot_word t) n st)"

definition pos_slot :: "int \<Rightarrow> slot" where
  "pos_slot pos =
     (if pos < 63488 then Direct (nat (pos div 512))
      else Leaf (nat (pos - 63488) div 64000) (nat (pos - 63488) div 512 mod 125))"

definition walk :: "fs \<Rightarrow> inode \<Rightarrow> int \<Rightarrow> fs" where
  "walk st ino pos =
     (if pos < 63488 then ensure st ino (Direct (nat (pos div 512)))
      else ensure (ensure (ensure st ino Root) ino (Mid (nat (pos - 63488) div 64000))) ino
             (Leaf (nat (pos - 63488) div 64000) (nat (pos - 63488) div 512 mod 125)))"

text \<open>The byte of the file at \<open>pos\<close>, read through the slots.\<close>

definition data_at :: "fs \<Rightarrow> inode \<Rightarrow> int \<Rightarrow> byte" where
  "data_at st ino pos = store st (slot_ptr st ino (pos_slot pos)) ! nat (pos mod 512)"

declare retrieve_loop.simps [simp del]
declare read_loop.simps [simp del]
declare write_loop.simps [simp del]

section \<open>The buffer cache\<close>

text \<open>
  \<open>struct cache\<close> of the cache's header. The slots are allocated once, by \<open>init_cache\<close>,
  and never freed: a pointer to a slot is its address, \<open>slots\<close> maps an address to the
  struct, and \<open>cache_list\<close> holds the addresses in list order (front first). \<open>disk\<close> is the
  content of the block device and \<open>dev_log\<close> the device operations performed so far,
  oldest first. The operations are modelled as one thread runs them; a \<open>cond_wait\<close> that
  only another thread could end is the error \<open>Blocked\<close>.
\<close>

record cache =
  block_data :: block
  disk_sector :: sector
  accessed :: bool
  is_available :: bool
  is_dirty :: bool

datatype event = BlockRead sector | BlockWrite sector block

record bcache =
  cache_list :: "nat list"
  slots :: "nat \<Rightarrow> cache"
  disk :: "sector \<Rightarrow> block"
  dev_log :: "event list"

definition block_write :: "sector \<Rightarrow> block \<Rightarrow> bcache \<Rightarrow> bcache" where
  "block_write s b st = st\<lparr>disk := (disk st)(s := b), dev_log := dev_log st @ [BlockWrite s b]\<rparr>"

definition block_read :: "sector \<Rightarrow> bcache \<Rightarrow> block \<times> bcache" where
  "block_read s st = (disk st s, st\<lparr>dev_log := dev_log st @ [BlockRead s]\<rparr>)"

definition upd_slot :: "nat \<Rightarrow> (cache \<Rightarrow> cache) \<Rightarrow> bcache \<Rightarrow> bcache" where
  "upd_slot a f st = st\<lparr>slots := (slots st)(a := f (slots st a))\<rparr>"

text \<open>
  One pass of the inner loop of \<open>find_buffer\<close> over the list from \<open>e\<close> on: the result is
  the slot that holds the sector, if the pass met it (the function returns it at once),
  \<open>temp_buf\<close>, and the slots with the \<open>accessed\<close> flags the pass has cleared.
\<close>

fun find_pass ::
  "sector \<Rightarrow> nat list \<Rightarrow> nat option \<Rightarrow> (nat \<Rightarrow> cache) \<Rightarrow> nat option \<times> nat option \<times> (nat \<Rightarrow> cache)" where
  "find_pass s [] temp_buf sl = (None, temp_buf, sl)"
| "find_pass s (buf # es) temp_buf sl =
     (if s = disk_sector (sl buf) then (Some buf, temp_buf, sl)
      else if is_available (sl buf) then
        (if accessed (sl buf) then find_pass s es temp_buf (sl(buf := (sl buf)\<lparr>accessed := False\<rparr>))
         else find_pass s es (if temp_buf = None then Some buf else temp_buf) sl)
      else find_pass s es temp_buf sl)"

text \<open>\<open>find_buffer\<close>: the passes are repeated while \<open>temp_buf\<close> is null. The loop need not
  end: not returning is the value \<open>None\<close>.\<close>

partial_function (option) find_buffer :: "sector \<Rightarrow> bcache \<Rightarrow> (nat \<times> bcache) option" where
  "find_buffer s st =
     (case find_pass s (cache_list st) None (slots st) of
        (Some buf, temp_buf, sl) \<Rightarrow> Some (buf, st\<lparr>slots := sl\<rparr>)
      | (None, Some temp_buf, sl) \<Rightarrow> Some (temp_buf, st\<lparr>slots := sl\<rparr>)
      | (None, None, sl) \<Rightarrow> find_buffer s (st\<lparr>slots := sl\<rparr>))"

text \<open>\<open>allocate_buffer\<close>: the result is the slot and the state, or \<open>Blocked\<close>.\<close>

definition allocate_buffer :: "sector \<Rightarrow> bcache \<Rightarrow> (error + (nat \<times> bcache)) option" where
  "allocate_buffer s st =
     (case find_buffer s st of
        None \<Rightarrow> None
      | Some (buf, st1) \<Rightarrow>
          if s = disk_sector (slots st1 buf) then
            (if \<not> is_available (slots st1 buf) then Some (Inl Blocked)
             else Some (Inr (buf, upd_slot buf (\<lambda>c. c\<lparr>accessed := True\<rparr>) st1)))
          else
            (let st2 = upd_slot buf (\<lambda>c. c\<lparr>is_available := False\<rparr>) st1;
                 st3 = (if is_dirty (slots st2 buf)
                        then block_write (disk_sector (slots st2 buf)) (block_data (slots st2 buf))
                               (upd_slot buf (\<lambda>c. c\<lparr>is_dirty := False\<rparr>) st2)
                        else st2);
                 st4 = upd_slot buf (\<lambda>c. c\<lparr>disk_sector := s\<rparr>) st3;
                 (b, st5) = block_read s st4;
                 st6 = upd_slot buf (\<lambda>c. c\<lparr>block_data := b, is_available := True\<rparr>) st5
             in Some (Inr (buf, upd_slot buf (\<lambda>c. c\<lparr>accessed := True\<rparr>) st6))))"

text \<open>\<open>deallocate_buffer (buf, is_dirty)\<close>, with the parameter \<open>is_dirty\<close> as \<open>dirty\<close>.\<close>

definition deallocate_buffer :: "nat \<Rightarrow> bool \<Rightarrow> bcache \<Rightarrow> bcache" where
  "deallocate_buffer buf dirty st =
     (let st1 = upd_slot buf (\<lambda>c. c\<lparr>is_available := False\<rparr>) st;
          st2 = (if dirty then upd_slot buf (\<lambda>c. c\<lparr>is_dirty := dirty\<rparr>) st1 else st1);
          st3 = st2\<lparr>cache_list := removeAll buf (cache_list st2) @ [buf]\<rparr>
      in upd_slot buf (\<lambda>c. c\<lparr>is_available := True\<rparr>) st3)"

text \<open>The loop of \<open>write_dirty_to_disk\<close>, with \<open>e\<close> as the position in the list.\<close>

definition flush_slot :: "nat \<Rightarrow> bcache \<Rightarrow> bcache" where
  "flush_slot buf st =
     (let st1 = upd_slot buf (\<lambda>c. c\<lparr>is_available := False, is_dirty := False\<rparr>) st;
          st2 = block_write (disk_sector (slots st1 buf)) (block_data (slots st1 buf)) st1
      in deallocate_buffer buf False st2)"

function write_dirty_loop :: "nat \<Rightarrow> bcache \<Rightarrow> error + bcache" where
  "write_dirty_loop e st =
     (if e < length (cache_list st) then
        (let buf = cache_list st ! e
         in if is_dirty (slots st buf) then
              (if \<not> is_available (slots st buf) then Inl Blocked
               else write_dirty_loop 0 (flush_slot buf st))
            else write_dirty_loop (Suc e) st)
      else Inr st)"
  by pat_completeness auto

definition dirty_count :: "bcache \<Rightarrow> nat" where
  "dirty_count st = length (filter (\<lambda>a. is_dirty (slots st a)) (cache_list st))"

lemma filter_removeAll_le: "length (filter P (removeAll x xs)) \<le> length (filter P xs)"
  by (induction xs) auto

lemma filter_removeAll_less:
  "x \<in> set xs \<Longrightarrow> P x \<Longrightarrow> length (filter P (removeAll x xs)) < length (filter P xs)"
proof (induction xs)
  case Nil
  then show ?case by simp
next
  case (Cons y ys)
  show ?case
  proof (cases "y = x")
    case True
    with Cons.prems filter_removeAll_le [of P x ys] show ?thesis by (simp add: less_Suc_eq_le)
  next
    case False
    with Cons show ?thesis by auto
  qed
qed

lemma dirty_count_flush_slot:
  assumes "e < length (cache_list st)" "is_dirty (slots st (cache_list st ! e))"
  shows "dirty_count (flush_slot (cache_list st ! e) st) < dirty_count st"
proof -
  define buf where "buf = cache_list st ! e"
  have in_list: "buf \<in> set (cache_list st)" using assms(1) by (simp add: buf_def)
  have "dirty_count (flush_slot buf st)
          = length (filter (\<lambda>a. is_dirty (slots st a)) (removeAll buf (cache_list st)))"
    unfolding dirty_count_def flush_slot_def deallocate_buffer_def upd_slot_def block_write_def Let_def
    by (auto intro!: arg_cong [where f = length] filter_cong)
  also have "\<dots> < length (filter (\<lambda>a. is_dirty (slots st a)) (cache_list st))"
    using in_list assms(2) [folded buf_def] by (rule filter_removeAll_less)
  finally show ?thesis by (simp add: dirty_count_def buf_def)
qed

termination write_dirty_loop
  by (relation "measures [\<lambda>(e, st). dirty_count st, \<lambda>(e, st). length (cache_list st) - e]")
     (auto simp: dirty_count_flush_slot)

definition write_dirty_to_disk :: "bcache \<Rightarrow> error + bcache" where
  "write_dirty_to_disk st = write_dirty_loop 0 st"

text \<open>An operation on the cache: the three entry points, and the \<open>memcpy\<close> of a caller into
  the buffer of a slot it holds. \<open>None\<close>: the operation does not return.\<close>

datatype cache_op =
    Allocate sector
  | Deallocate nat bool
  | WriteDirty
  | Fill nat block

fun cache_step :: "cache_op \<Rightarrow> bcache \<Rightarrow> (error + bcache) option" where
  "cache_step (Allocate s) st = map_option (map_sum id snd) (allocate_buffer s st)"
| "cache_step (Deallocate buf dirty) st = Some (Inr (deallocate_buffer buf dirty st))"
| "cache_step WriteDirty st = Some (write_dirty_to_disk st)"
| "cache_step (Fill buf b) st = Some (Inr (upd_slot buf (\<lambda>c. c\<lparr>block_data := b\<rparr>) st))"

fun cache_run :: "cache_op list \<Rightarrow> bcache \<Rightarrow> (error + bcache) option" where
  "cache_run [] st = Some (Inr st)"
| "cache_run (op # ops) st =
     (case cache_step op st of
        None \<Rightarrow> None
      | Some (Inl e) \<Rightarrow> Some (Inl e)
      | Some (Inr st1) \<Rightarrow> cache_run ops st1)"

declare write_dirty_loop.simps [simp del]

text \<open>Two maps of slots that differ in the \<open>accessed\<close> flags at most, and two states of the
  cache that differ in these flags at most.\<close>

definition same_but_accessed :: "(nat \<Rightarrow> cache) \<Rightarrow> (nat \<Rightarrow> cache) \<Rightarrow> bool" where
  "same_but_accessed sl sl' \<longleftrightarrow> (\<forall>a. sl' a = (sl a)\<lparr>accessed := accessed (sl' a)\<rparr>)"

definition cache_frame :: "bcache \<Rightarrow> bcache \<Rightarrow> bool" where
  "cache_frame st st1 \<longleftrightarrow> same_but_accessed (slots st) (slots st1) \<and>
     cache_list st1 = cache_list st \<and> disk st1 = disk st \<and> dev_log st1 = dev_log st"

text \<open>An example cache: two clean slots holding the sectors 5 and 6 of a device whose
  sectors all hold \<open>b\<close>.\<close>

definition two_slots :: "block \<Rightarrow> bcache" where
  "two_slots b =
     \<lparr>cache_list = [0, 1],
      slots = (\<lambda>a. \<lparr>block_data = b, disk_sector = (if a = 0 then 5 else 6), accessed = False,
                     is_available = True, is_dirty = False\<rparr>),
      disk = (\<lambda>s. b), dev_log = []\<rparr>"

section \<open>Sector buffers as arrays of words\<close>

lemma word_of_bytes_of_word: "word_of_bytes (bytes_of_word w) = w"
  unfolding word_of_bytes_def bytes_of_word_def
  apply (simp)
  apply (rule bit_word_eqI)
  subgoal for n
    by (cases "n < 8"; cases "n < 16"; cases "n < 24") (auto simp add: bit_simps)
  done

lemma length_bytes_of_word: "length (bytes_of_word w) = 4"
  by (simp add: bytes_of_word_def)

lemma length_put32: "4 * i + 4 \<le> length b \<Longrightarrow> length (put32 b i w) = length b"
  by (simp add: put32_def length_bytes_of_word)

lemma get32_put32_same: "4 * i + 4 \<le> length b \<Longrightarrow> get32 (put32 b i w) i = w"
  by (simp add: get32_def put32_def length_bytes_of_word word_of_bytes_of_word)

lemma get32_put32_other:
  assumes "i \<noteq> j" "4 * i + 4 \<le> length b"
  shows "get32 (put32 b i w) j = get32 b j"
proof (cases "j < i")
  case True
  then have "4 * j + 4 \<le> 4 * i" by simp
  then have "take 4 (drop (4 * j) (put32 b i w)) = take 4 (drop (4 * j) b)"
    using assms by (simp add: put32_def length_bytes_of_word min_def take_drop)
  then show ?thesis by (simp add: get32_def)
next
  case False
  with assms have "i < j" by simp
  then obtain d where d: "4 * j = 4 * i + 4 + d"
    by (metis add.commute add_mult_distrib2 less_iff_Suc_add mult.commute mult_Suc_right nat_mult_1_right add.assoc)
  have "drop (4 * j) (put32 b i w) = drop (4 * j) b"
    using assms d by (simp add: put32_def length_bytes_of_word min_def ac_simps)
  then show ?thesis by (simp add: get32_def)
qed

lemma get32_zero_block: "get32 zero_block i = 0"
proof -
  have "take 4 (drop (4 * i) zero_block) = replicate (min 4 (512 - 4 * i)) 0"
    by (simp add: zero_block_def)
  moreover have "word_of_bytes (replicate n 0) = 0" for n
    by (induction n) (simp_all add: word_of_bytes_def)
  ultimately show ?thesis by (simp add: get32_def)
qed

section \<open>One inode in memory for each sector\<close>

lemma find_open_result:
  "\<forall>a\<in>set as. h a \<noteq> None \<Longrightarrow>
   \<exists>r. find_open h s as = Inr r \<and>
       (case r of None \<Rightarrow> \<forall>a\<in>set as. sector (the (h a)) \<noteq> s
                | Some a \<Rightarrow> a \<in> set as \<and> sector (the (h a)) = s)"
  by (induction as) (auto split: option.splits)

lemma inode_reopen_inv:
  assumes "one_inode_per_sector st" "inode_reopen p st = Inr (q, st')"
  shows "one_inode_per_sector st'"
  using assms
  by (auto simp: inode_reopen_def one_inode_per_sector_def split: option.splits if_splits)

lemma malloc_cases:
  "malloc st = (None, st\<lparr>mem := tl (mem st)\<rparr>) \<or>
   malloc st = (Some (next_addr st), st\<lparr>mem := tl (mem st), next_addr := Suc (next_addr st)\<rparr>)"
  by (simp add: malloc_def Let_def)

lemma malloc_inv:
  "one_inode_per_sector st \<Longrightarrow> malloc st = (p, st1) \<Longrightarrow> one_inode_per_sector st1"
  using malloc_cases [of st] by (auto simp: one_inode_per_sector_def)

lemma find_open_cases:
  assumes "one_inode_per_sector st"
  shows "(find_open (heap st) s (open_inodes st) = Inr None \<and>
            (\<forall>a x. heap st a = Some x \<longrightarrow> sector x \<noteq> s)) \<or>
         (\<exists>a x. find_open (heap st) s (open_inodes st) = Inr (Some a) \<and>
            heap st a = Some x \<and> sector x = s)"
proof -
  from assms have live: "\<forall>a\<in>set (open_inodes st). heap st a \<noteq> None"
    by (simp add: one_inode_per_sector_def)
  from find_open_result [OF live, of s] obtain r where
    r: "find_open (heap st) s (open_inodes st) = Inr r"
    and rr: "case r of None \<Rightarrow> \<forall>a\<in>set (open_inodes st). sector (the (heap st a)) \<noteq> s
                | Some a \<Rightarrow> a \<in> set (open_inodes st) \<and> sector (the (heap st a)) = s"
    by blast
  show ?thesis
  proof (cases r)
    case None
    have "sector x \<noteq> s" if "heap st a = Some x" for a x
    proof -
      from that assms have "a \<in> set (open_inodes st)"
        unfolding one_inode_per_sector_def by (metis option.distinct(1))
      with rr None that show ?thesis by auto
    qed
    with r None show ?thesis by blast
  next
    case (Some a)
    with rr live obtain x where "heap st a = Some x" by auto
    with rr Some r show ?thesis by auto
  qed
qed

lemma inode_open_inv:
  assumes inv: "one_inode_per_sector st" and o: "inode_open s st = Inr (q, st')"
  shows "one_inode_per_sector st'"
proof -
  from find_open_cases [OF inv, of s] show ?thesis
  proof (elim disjE conjE exE)
    fix a x
    assume "find_open (heap st) s (open_inodes st) = Inr (Some a)"
    with o have "inode_reopen (Some a) st = Inr (q, st')" by (simp add: inode_open_def)
    with inv show ?thesis by (rule inode_reopen_inv)
  next
    assume f: "find_open (heap st) s (open_inodes st) = Inr None"
      and miss: "\<forall>a x. heap st a = Some x \<longrightarrow> sector x \<noteq> s"
    from malloc_cases [of st] show ?thesis
    proof
      assume "malloc st = (None, st\<lparr>mem := tl (mem st)\<rparr>)"
      with o f have "st' = st\<lparr>mem := tl (mem st)\<rparr>" by (simp add: inode_open_def)
      with inv show ?thesis by (simp add: one_inode_per_sector_def)
    next
      assume m: "malloc st = (Some (next_addr st), st\<lparr>mem := tl (mem st), next_addr := Suc (next_addr st)\<rparr>)"
      define n where "n = next_addr st"
      from o f m have st': "st' = st\<lparr>mem := tl (mem st), next_addr := Suc n,
          open_inodes := n # open_inodes st,
          heap := (heap st)(n \<mapsto> \<lparr>sector = s, open_cnt = 1, removed = False, deny_write_cnt = 0\<rparr>)\<rparr>"
        by (simp add: inode_open_def n_def)
      from inv have hn: "heap st n = None" and nn: "n \<notin> set (open_inodes st)"
        unfolding one_inode_per_sector_def n_def by (metis order_refl)+
      have 1: "distinct (open_inodes st')" using inv nn st' by (simp add: one_inode_per_sector_def)
      have 2: "\<forall>a. (heap st' a \<noteq> None) = (a \<in> set (open_inodes st'))"
        using inv st' by (simp add: one_inode_per_sector_def)
      have 3: "\<forall>a. next_addr st' \<le> a \<longrightarrow> heap st' a = None"
        using inv st' by (simp add: one_inode_per_sector_def n_def)
      have 4: "a = b" if "heap st' a = Some x" "heap st' b = Some y" "sector x = sector y" for a b x y
      proof -
        have new: "sector z = s" if "heap st' n = Some z" for z
          using that st' by auto
        have old: "heap st c = Some z \<and> sector z \<noteq> s" if "heap st' c = Some z" "c \<noteq> n" for c z
          using that st' miss by auto
        show ?thesis
        proof (cases "a = n")
          case True
          show ?thesis
          proof (cases "b = n")
            case False
            with old [OF that(2)] new [of x] that True show ?thesis by auto
          qed (simp add: True)
        next
          case False
          show ?thesis
          proof (cases "b = n")
            case True
            with old [OF that(1) False] new [of y] that show ?thesis by auto
          next
            case bn: False
            from old [OF that(1) False] old [OF that(2) bn] that(3) inv show ?thesis
              unfolding one_inode_per_sector_def by blast
          qed
        qed
      qed
      from 1 2 3 4 show ?thesis unfolding one_inode_per_sector_def by blast
    qed
  qed
qed

lemma inode_close_with_inv:
  assumes inv: "one_inode_per_sector st"
    and cl: "inode_close_with dealloc p st = Inr st'"
    and frame: "\<And>ino s s'. dealloc ino s = Inr s' \<Longrightarrow>
                 open_inodes s' = open_inodes s \<and> heap s' = heap s \<and> next_addr s' = next_addr s"
  shows "one_inode_per_sector st'"
proof (cases p)
  case None
  with cl inv show ?thesis by (simp add: inode_close_with_def)
next
  case (Some a)
  show ?thesis
  proof (cases "heap st a")
    case None
    with cl Some show ?thesis by (simp add: inode_close_with_def)
  next
    case (Some ino)
    note ino = this
    show ?thesis
    proof (cases "open_cnt ino = 1")
      case False
      with cl ino \<open>p = Some a\<close> have "st' = st\<lparr>heap := (heap st)(a \<mapsto> ino\<lparr>open_cnt := open_cnt ino - 1\<rparr>)\<rparr>"
        by (simp add: inode_close_with_def Let_def)
      with inv ino show ?thesis
        by (auto simp: one_inode_per_sector_def split: if_splits)
    next
      case True
      define st2 where "st2 = st\<lparr>heap := (heap st)(a \<mapsto> ino\<lparr>open_cnt := 0\<rparr>),
                               open_inodes := removeAll a (open_inodes st)\<rparr>"
      from cl ino \<open>p = Some a\<close> True obtain st3 where
        st3: "(if removed ino then dealloc (ino\<lparr>open_cnt := 0\<rparr>) st2 else Inr st2) = Inr st3"
        and st': "st' = st3\<lparr>heap := (heap st3)(a := None)\<rparr>"
        unfolding st2_def by (auto simp: inode_close_with_def Let_def split: sum.splits)
      have "open_inodes st3 = open_inodes st2 \<and> heap st3 = heap st2 \<and> next_addr st3 = next_addr st2"
        using st3 frame by (auto split: if_splits)
      with st' inv ino show ?thesis
        by (auto simp: one_inode_per_sector_def st2_def distinct_removeAll split: if_splits)
    qed
  qed
qed

lemma fold_frame:
  assumes "\<And>x s. P (f x s) = P s"
  shows "P (fold f xs st) = P st"
  using assms by (induction xs arbitrary: st) simp_all

lemma release_blocks_frame:
  assumes "release_blocks ino s = Inr s'"
  shows "open_inodes s' = open_inodes s \<and> heap s' = heap s \<and> next_addr s' = next_addr s \<and> store s' = store s"
proof -
  have d: "P (fold (release_direct ino) xs st) = P st"
    if "\<And>s v. P (s\<lparr>free_map := v\<rparr>) = P s" for P :: "fs \<Rightarrow> 'b" and xs st
    by (rule fold_frame) (simp add: release_direct_def free_map_release_def that)
  from assms show ?thesis
    by (auto simp: release_blocks_def Let_def d split: if_splits)
qed

lemma do_call_inv:
  assumes "one_inode_per_sector st" "do_call c st = Inr st'"
  shows "one_inode_per_sector st'"
proof (cases c)
  case (Open s)
  with assms show ?thesis
    by (cases "inode_open s st") (auto intro: inode_open_inv)
next
  case (Reopen p)
  with assms show ?thesis
    by (cases "inode_reopen p st") (auto intro: inode_reopen_inv)
next
  case (Close p)
  with assms show ?thesis
    using inode_close_with_inv [of st release_blocks p st'] release_blocks_frame
    by (simp add: inode_close_def)
qed

lemma run_calls_inv:
  "one_inode_per_sector st \<Longrightarrow> run_calls cs st = Inr st' \<Longrightarrow> one_inode_per_sector st'"
  by (induction cs arbitrary: st) (auto split: sum.splits dest: do_call_inv)

lemma inode_open_hit:
  assumes inv: "one_inode_per_sector st" and h: "heap st a = Some ino"
  shows "inode_open (sector ino) st =
           Inr (Some a, st\<lparr>heap := (heap st)(a \<mapsto> ino\<lparr>open_cnt := open_cnt ino + 1\<rparr>)\<rparr>)"
proof -
  from find_open_cases [OF inv, of "sector ino"] h obtain b y where
    f: "find_open (heap st) (sector ino) (open_inodes st) = Inr (Some b)"
    and y: "heap st b = Some y" "sector y = sector ino"
    by blast
  with inv h have "b = a"
    unfolding one_inode_per_sector_def by blast
  with f h show ?thesis
    by (simp add: inode_open_def inode_reopen_def)
qed

lemma inode_open_miss:
  assumes inv: "one_inode_per_sector st"
    and miss: "\<forall>a ino. heap st a = Some ino \<longrightarrow> sector ino \<noteq> s"
    and ok: "fst (malloc st) \<noteq> None"
  shows "\<exists>a st1. inode_open s st = Inr (Some a, st1) \<and> heap st a = None \<and>
           open_inodes st1 = a # open_inodes st \<and>
           heap st1 = (heap st)(a \<mapsto> \<lparr>sector = s, open_cnt = 1, removed = False, deny_write_cnt = 0\<rparr>)"
proof -
  from find_open_cases [OF inv, of s] miss
  have f: "find_open (heap st) s (open_inodes st) = Inr None" by blast
  from malloc_cases [of st] ok
  have m: "malloc st = (Some (next_addr st), st\<lparr>mem := tl (mem st), next_addr := Suc (next_addr st)\<rparr>)"
    by auto
  from inv have "heap st (next_addr st) = None"
    by (simp add: one_inode_per_sector_def)
  with f m show ?thesis by (simp add: inode_open_def)
qed

lemma inode_open_total:
  assumes "one_inode_per_sector st"
  shows "\<exists>p st1. inode_open s st = Inr (p, st1)"
proof -
  from find_open_cases [OF assms, of s] show ?thesis
  proof (elim disjE conjE exE)
    fix a x assume "find_open (heap st) s (open_inodes st) = Inr (Some a)" "heap st a = Some x"
    then show ?thesis by (simp add: inode_open_def inode_reopen_def)
  next
    assume "find_open (heap st) s (open_inodes st) = Inr None"
    then show ?thesis
      using malloc_cases [of st] by (auto simp: inode_open_def)
  qed
qed

lemma inode_open_result:
  assumes "inode_open s st = Inr (p, st1)"
  shows "itable.more st1 = itable.more st \<and> free_map st1 = free_map st \<and>
         (\<forall>a. p = Some a \<longrightarrow> heap st1 a \<noteq> None)"
proof (cases "find_open (heap st) s (open_inodes st)")
  case (Inl e)
  with assms show ?thesis by (simp add: inode_open_def)
next
  case (Inr r)
  show ?thesis
  proof (cases r)
    case (Some a)
    with Inr assms show ?thesis
      by (auto simp: inode_open_def inode_reopen_def split: option.splits)
  next
    case None
    from malloc_cases [of st] show ?thesis
    proof
      assume "malloc st = (None, st\<lparr>mem := tl (mem st)\<rparr>)"
      with assms Inr None show ?thesis by (auto simp: inode_open_def)
    next
      assume "malloc st = (Some (next_addr st), st\<lparr>mem := tl (mem st), next_addr := Suc (next_addr st)\<rparr>)"
      with assms Inr None show ?thesis by (auto simp: inode_open_def)
    qed
  qed
qed

lemma ns_more_frame:
  fixes st :: ns
  assumes "itable.more st1 = itable.more st"
  shows "recs st1 = recs st \<and> isdir st1 = isdir st \<and> cwd st1 = cwd st"
  using assms by (cases st, cases st1) simp

lemma fs_more_frame:
  fixes st :: fs
  assumes "itable.more st1 = itable.more st"
  shows "store st1 = store st \<and> next_sector_to_read st1 = next_sector_to_read st"
  using assms by (cases st, cases st1) simp

text \<open>
  C8. In a table where every live \<open>struct inode\<close> is on the list \<open>open_inodes\<close> and no two
  of them have the same sector, that stays so after every sequence of \<open>inode_open\<close>,
  \<open>inode_reopen\<close> and \<open>inode_close\<close>; \<open>inode_open\<close> of the sector of a live inode returns
  that very inode with \<open>open_cnt\<close> one higher and creates nothing; \<open>inode_open\<close> of a sector
  that no live inode has creates a new inode with \<open>open_cnt = 1\<close> at the front of the
  list, and a second \<open>inode_open\<close> of the sector returns the same inode with
  \<open>open_cnt = 2\<close>.
\<close>

theorem one_inode_per_sector_invariant:
  assumes "one_inode_per_sector st"
  shows "(\<forall>cs st'. run_calls cs st = Inr st' \<longrightarrow> one_inode_per_sector st') \<and>
         (\<forall>a ino. heap st a = Some ino \<longrightarrow>
            inode_open (sector ino) st =
              Inr (Some a, st\<lparr>heap := (heap st)(a \<mapsto> ino\<lparr>open_cnt := open_cnt ino + 1\<rparr>)\<rparr>)) \<and>
         (\<forall>s. (\<forall>a ino. heap st a = Some ino \<longrightarrow> sector ino \<noteq> s) \<and> fst (malloc st) \<noteq> None \<longrightarrow>
            (\<exists>a st1 st2 ino2.
               inode_open s st = Inr (Some a, st1) \<and> heap st a = None \<and>
               open_inodes st1 = a # open_inodes st \<and>
               heap st1 a = Some \<lparr>sector = s, open_cnt = 1, removed = False, deny_write_cnt = 0\<rparr> \<and>
               inode_open s st1 = Inr (Some a, st2) \<and> open_inodes st2 = open_inodes st1 \<and>
               heap st2 a = Some ino2 \<and> sector ino2 = s \<and> open_cnt ino2 = 2))"
proof (intro conjI allI impI)
  fix cs st' assume "run_calls cs st = Inr st'"
  with assms show "one_inode_per_sector st'" by (rule run_calls_inv)
next
  fix a ino assume "heap st a = Some ino"
  with assms show "inode_open (sector ino) st =
      Inr (Some a, st\<lparr>heap := (heap st)(a \<mapsto> ino\<lparr>open_cnt := open_cnt ino + 1\<rparr>)\<rparr>)"
    by (rule inode_open_hit)
next
  fix s assume "(\<forall>a ino. heap st a = Some ino \<longrightarrow> sector ino \<noteq> s) \<and> fst (malloc st) \<noteq> None"
  with inode_open_miss [OF assms, of s] obtain a st1 where
    o1: "inode_open s st = Inr (Some a, st1)" and fresh: "heap st a = None"
    and l1: "open_inodes st1 = a # open_inodes st"
    and h1: "heap st1 = (heap st)(a \<mapsto> \<lparr>sector = s, open_cnt = 1, removed = False, deny_write_cnt = 0\<rparr>)"
    by blast
  from assms o1 have inv1: "one_inode_per_sector st1" by (rule inode_open_inv)
  have "heap st1 a = Some \<lparr>sector = s, open_cnt = 1, removed = False, deny_write_cnt = 0\<rparr>"
    by (simp add: h1)
  from inode_open_hit [OF inv1 this] o1 fresh l1 h1
  show "\<exists>a st1 st2 ino2.
               inode_open s st = Inr (Some a, st1) \<and> heap st a = None \<and>
               open_inodes st1 = a # open_inodes st \<and>
               heap st1 a = Some \<lparr>sector = s, open_cnt = 1, removed = False, deny_write_cnt = 0\<rparr> \<and>
               inode_open s st1 = Inr (Some a, st2) \<and> open_inodes st2 = open_inodes st1 \<and>
               heap st2 a = Some ino2 \<and> sector ino2 = s \<and> open_cnt ino2 = 2"
    by simp
qed

theorem one_inode_per_sector_invariant_witness:
  "one_inode_per_sector (blank_fs 6) \<and>
   (\<exists>st'. run_calls [Open 1, Open 5, Open 1, Close (Some 1), Reopen (Some 0), Close (Some 0)] (blank_fs 6) = Inr st'
        \<and> open_inodes st' = [0] \<and> map_option open_cnt (heap st' 0) = Some 2
        \<and> one_inode_per_sector st')"
proof -
  have inv: "one_inode_per_sector (blank_fs 6)"
    by (simp add: one_inode_per_sector_def blank_fs_def)
  have run: "\<exists>st'. run_calls [Open 1, Open 5, Open 1, Close (Some 1), Reopen (Some 0), Close (Some 0)] (blank_fs 6) = Inr st'
        \<and> open_inodes st' = [0] \<and> map_option open_cnt (heap st' 0) = Some 2"
    by (simp add: blank_fs_def inode_open_def inode_reopen_def inode_close_def inode_close_with_def
          malloc_def Let_def)
  with one_inode_per_sector_invariant [OF inv] inv show ?thesis by blast
qed

section \<open>Path resolution and removal\<close>

lemma malloc_frame:
  assumes "malloc st = (q, st0)"
  shows "itable.more st0 = itable.more st \<and> free_map st0 = free_map st \<and> heap st0 = heap st
         \<and> open_inodes st0 = open_inodes st"
  using assms malloc_cases [of st] by auto

lemma malloc_ok:
  "table_ok st \<Longrightarrow> malloc st = (q, st0) \<Longrightarrow> table_ok st0"
  using malloc_inv [of st q st0] malloc_frame [of st q st0] by (simp add: table_ok_def)

lemma inode_reopen_ok:
  assumes "table_ok st" "inode_reopen p st = Inr (q, st1)"
  shows "table_ok st1 \<and> itable.more st1 = itable.more st \<and> free_map st1 = free_map st \<and>
         dom (heap st1) = dom (heap st) \<and> q = p"
proof (cases p)
  case None
  with assms show ?thesis by (simp add: inode_reopen_def)
next
  case (Some a)
  with assms obtain x where x: "heap st a = Some x"
    and st1: "st1 = st\<lparr>heap := (heap st)(a \<mapsto> x\<lparr>open_cnt := open_cnt x + 1\<rparr>)\<rparr>" "q = p"
    by (auto simp: inode_reopen_def split: option.splits)
  from assms have "one_inode_per_sector st1" using inode_reopen_inv by (auto simp: table_ok_def)
  moreover from assms(1) x have "1 \<le> open_cnt x" by (auto simp: table_ok_def)
  then have "\<forall>b y. heap st1 b = Some y \<longrightarrow> 1 \<le> open_cnt y"
    using assms(1) st1 by (auto simp: table_ok_def)
  moreover have "dom (heap st1) = dom (heap st)" using x st1 by auto
  ultimately show ?thesis using st1 by (simp add: table_ok_def)
qed

lemma inode_open_ok:
  assumes ok: "table_ok st" and o: "inode_open s st = Inr (p, st1)"
  shows "table_ok st1 \<and> itable.more st1 = itable.more st \<and> free_map st1 = free_map st \<and>
         (\<forall>a x. heap st a = Some x \<longrightarrow> (\<exists>y. heap st1 a = Some y \<and> sector y = sector x)) \<and>
         (\<forall>a. p = Some a \<longrightarrow> (\<exists>x. heap st1 a = Some x \<and> sector x = s \<and>
                                  (a \<in> dom (heap st) \<longrightarrow> 2 \<le> open_cnt x)))"
proof -
  from ok have inv: "one_inode_per_sector st" by (simp add: table_ok_def)
  from inv o have inv1: "one_inode_per_sector st1" by (rule inode_open_inv)
  note fr = inode_open_result [OF o]
  from find_open_cases [OF inv, of s] show ?thesis
  proof (elim disjE conjE exE)
    fix a x
    assume f: "find_open (heap st) s (open_inodes st) = Inr (Some a)" and x: "heap st a = Some x" "sector x = s"
    with o have p: "p = Some a" and h1: "heap st1 = (heap st)(a \<mapsto> x\<lparr>open_cnt := open_cnt x + 1\<rparr>)"
      by (auto simp add: inode_open_def inode_reopen_def)
    from ok x have c1: "1 \<le> open_cnt x" by (auto simp: table_ok_def)
    have "\<forall>b y. heap st1 b = Some y \<longrightarrow> 1 \<le> open_cnt y"
      using ok c1 h1 by (auto simp: table_ok_def)
    moreover have "\<forall>a x. heap st a = Some x \<longrightarrow> (\<exists>y. heap st1 a = Some y \<and> sector y = sector x)"
      using h1 x by auto
    moreover have "\<exists>z. heap st1 a = Some z \<and> sector z = s \<and> (a \<in> dom (heap st) \<longrightarrow> 2 \<le> open_cnt z)"
      using h1 x c1 by simp
    ultimately show ?thesis using inv1 fr p by (simp add: table_ok_def)
  next
    assume f: "find_open (heap st) s (open_inodes st) = Inr None"
    from malloc_cases [of st] show ?thesis
    proof
      assume "malloc st = (None, st\<lparr>mem := tl (mem st)\<rparr>)"
      with o f have "p = None" "st1 = st\<lparr>mem := tl (mem st)\<rparr>" by (auto simp add: inode_open_def)
      then show ?thesis using inv1 fr ok by (auto simp: table_ok_def)
    next
      assume m: "malloc st = (Some (next_addr st), st\<lparr>mem := tl (mem st), next_addr := Suc (next_addr st)\<rparr>)"
      from inv have hn: "heap st (next_addr st) = None" by (simp add: one_inode_per_sector_def)
      from o f m have "p = Some (next_addr st)"
        "heap st1 = (heap st)(next_addr st \<mapsto> \<lparr>sector = s, open_cnt = 1, removed = False, deny_write_cnt = 0\<rparr>)"
        by (auto simp add: inode_open_def)
      then show ?thesis using inv1 fr ok hn by (auto simp: table_ok_def)
    qed
  qed
qed

lemma ns_inode_close_ok:
  assumes ok: "table_ok st" and live: "heap st a = Some x"
  shows "\<exists>st1. ns_inode_close (Some a) st = Inr st1 \<and> table_ok st1 \<and>
           itable.more st1 = itable.more st \<and> free_map st1 = free_map st \<and>
           (\<forall>b. b \<noteq> a \<longrightarrow> heap st1 b = heap st b) \<and>
           (2 \<le> open_cnt x \<longrightarrow> heap st1 a = Some (x\<lparr>open_cnt := open_cnt x - 1\<rparr>))"
proof -
  from ok have inv: "one_inode_per_sector st" by (simp add: table_ok_def)
  have "\<exists>st1. ns_inode_close (Some a) st = Inr st1"
    using live by (cases "open_cnt x = 1") (simp_all add: ns_inode_close_def inode_close_with_def Let_def)
  then obtain st1 where c: "ns_inode_close (Some a) st = Inr st1" by blast
  then have inv1: "one_inode_per_sector st1"
    using inode_close_with_inv [of st "\<lambda>ino st. Inr st" "Some a" st1] inv
    by (simp add: ns_inode_close_def)
  from ok live have c1: "1 \<le> open_cnt x" by (auto simp: table_ok_def)
  show ?thesis
  proof (cases "open_cnt x = 1")
    case True
    with c live have "st1 = st\<lparr>heap := (heap st)(a \<mapsto> x\<lparr>open_cnt := 0\<rparr>),
        open_inodes := removeAll a (open_inodes st), heap := ((heap st)(a \<mapsto> x\<lparr>open_cnt := 0\<rparr>))(a := None)\<rparr>"
      by (simp add: ns_inode_close_def inode_close_with_def Let_def)
    then show ?thesis using c inv1 ok True by (auto simp: table_ok_def)
  next
    case False
    with c live have "st1 = st\<lparr>heap := (heap st)(a \<mapsto> x\<lparr>open_cnt := open_cnt x - 1\<rparr>)\<rparr>"
      by (simp add: ns_inode_close_def inode_close_with_def Let_def)
    then show ?thesis using c inv1 ok c1 False by (auto simp: table_ok_def)
  qed
qed

lemma dir_open_ok:
  assumes ok: "table_ok st" and live: "\<forall>a. p = Some a \<longrightarrow> a \<in> dom (heap st)"
  shows "\<exists>d st1. dir_open p st = Inr (d, st1) \<and> table_ok st1 \<and>
           itable.more st1 = itable.more st \<and> free_map st1 = free_map st \<and>
           (\<forall>dd. d = Some dd \<longrightarrow> dir_inode dd \<in> dom (heap st1))"
proof -
  obtain q st0 where m: "malloc st = (q, st0)" by (cases "malloc st")
  note f0 = malloc_frame [OF m] and ok0 = malloc_ok [OF ok m]
  show ?thesis
  proof (cases p)
    case None
    with m f0 ok0 show ?thesis
      by (simp add: dir_open_def ns_inode_close_def inode_close_with_def)
  next
    case (Some a)
    with live f0 obtain x where x: "heap st0 a = Some x" by auto
    show ?thesis
    proof (cases q)
      case None
      from ns_inode_close_ok [OF ok0 x] obtain st1 where
        "ns_inode_close (Some a) st0 = Inr st1" "table_ok st1"
        "itable.more st1 = itable.more st0" "free_map st1 = free_map st0" by blast
      with m f0 None Some show ?thesis by (simp add: dir_open_def)
    next
      case (Some b)
      with m f0 ok0 x \<open>p = Some a\<close> show ?thesis by (auto simp add: dir_open_def)
    qed
  qed
qed

lemma dir_lookup_ok:
  assumes ok: "table_ok st" and par: "heap st (dir_inode d) = Some pino"
  shows "\<exists>found p st1. dir_lookup d nm st = Inr (found, p, st1) \<and> table_ok st1 \<and>
           itable.more st1 = itable.more st \<and> free_map st1 = free_map st \<and>
           (\<forall>a x. heap st a = Some x \<longrightarrow> (\<exists>y. heap st1 a = Some y \<and> sector y = sector x)) \<and>
           (found \<longleftrightarrow> p \<noteq> None) \<and>
           (find_entry nm (recs st (sector pino)) 0 = None \<longrightarrow> p = None) \<and>
           (\<forall>a. p = Some a \<longrightarrow>
              (\<exists>x e ofs. heap st1 a = Some x \<and>
                 find_entry nm (recs st (sector pino)) 0 = Some (e, ofs) \<and> sector x = inode_sector e \<and>
                 (a \<in> dom (heap st) \<longrightarrow> 2 \<le> open_cnt x)))"
proof (cases "find_entry nm (recs st (sector pino)) 0")
  case None
  with par ok show ?thesis by (auto simp add: dir_lookup_def lookup_def)
next
  case (Some r)
  obtain e ofs where r: "r = (e, ofs)" by (cases r)
  from ok have "one_inode_per_sector st" by (simp add: table_ok_def)
  from inode_open_total [OF this, of "inode_sector e"] obtain p st1 where
    o: "inode_open (inode_sector e) st = Inr (p, st1)" by blast
  from inode_open_ok [OF ok o] o Some r par show ?thesis
    by (simp add: dir_lookup_def lookup_def)
qed

lemma retrieve_loop_ok:
  assumes "table_ok st" "\<forall>dd. d = Some dd \<longrightarrow> dir_inode dd \<in> dom (heap st)"
    "retrieve_loop path buf ip d fn st = Inr (r, fn', st')"
  shows "table_ok st' \<and> itable.more st' = itable.more st \<and> free_map st' = free_map st \<and>
         (\<forall>dd. r = Some dd \<longrightarrow> dir_inode dd \<in> dom (heap st'))"
  using assms
proof (induction path buf ip d fn st rule: retrieve_loop.induct)
  case (1 path buf is_parent d file_name st)
  note res = "1.prems"(3)
  show ?case
  proof (cases "trace_path path buf")
    case (Inl e)
    with res show ?thesis by (subst (asm) retrieve_loop.simps) simp
  next
    case (Inr tp)
    show ?thesis
    proof (cases tp)
      case None
      with Inr res "1.prems"(1,2) show ?thesis
        by (subst (asm) retrieve_loop.simps) (auto split: if_splits)
    next
      case (Some t3)
      obtain rest too_long nm where t3: "t3 = (rest, too_long, nm)" by (cases t3)
      note tp = Inr [unfolded Some t3]
      show ?thesis
      proof (cases too_long)
        case True
        with tp res "1.prems"(1,2) show ?thesis
          by (subst (asm) retrieve_loop.simps) (auto split: if_splits)
      next
        case False
        note ntl = this
        show ?thesis
        proof (cases d)
          case None
          with tp ntl res show ?thesis by (subst (asm) retrieve_loop.simps) simp
        next
          case (Some dr)
          with "1.prems"(2) obtain ino where ino: "heap st (dir_inode dr) = Some ino" by auto
          show ?thesis
          proof (cases "removed ino \<or> (is_parent \<and> rest = [])")
            case True
            with tp ntl Some ino res "1.prems"(1) show ?thesis
              by (subst (asm) retrieve_loop.simps) (auto split: if_splits)
          next
            case False
            from dir_lookup_ok [OF "1.prems"(1) ino, of nm] obtain found temp st1 where
              dl: "dir_lookup dr nm st = Inr (found, temp, st1)" and ok1: "table_ok st1"
              and f1: "itable.more st1 = itable.more st" "free_map st1 = free_map st"
              and keep: "\<forall>a x. heap st a = Some x \<longrightarrow> (\<exists>y. heap st1 a = Some y \<and> sector y = sector x)"
              and fnd: "found \<longleftrightarrow> temp \<noteq> None"
              and tmp: "\<forall>a. temp = Some a \<longrightarrow>
                 (\<exists>x e ofs. heap st1 a = Some x \<and>
                 find_entry nm (recs st (sector ino)) 0 = Some (e, ofs) \<and> sector x = inode_sector e \<and>
                 (a \<in> dom (heap st) \<longrightarrow> 2 \<le> open_cnt x))"
              by blast
            from keep ino obtain y where y: "heap st1 (dir_inode dr) = Some y" by blast
            from ns_inode_close_ok [OF ok1 y] obtain st2 where
              cl: "ns_inode_close (Some (dir_inode dr)) st1 = Inr st2" and ok2: "table_ok st2"
              and f2: "itable.more st2 = itable.more st1" "free_map st2 = free_map st1"
              and oth: "\<forall>b. b \<noteq> dir_inode dr \<longrightarrow> heap st2 b = heap st1 b"
              and same: "2 \<le> open_cnt y \<longrightarrow> heap st2 (dir_inode dr) = Some (y\<lparr>open_cnt := open_cnt y - 1\<rparr>)"
              by blast
            show ?thesis
            proof (cases temp)
              case None
              with fnd tp ntl Some ino False dl cl res ok2 f1 f2 show ?thesis
                by (subst (asm) retrieve_loop.simps) (auto split: if_splits)
            next
              case (Some t)
              with tmp obtain x where x: "heap st1 t = Some x" "t \<in> dom (heap st) \<longrightarrow> 2 \<le> open_cnt x"
                by blast
              have tl: "t \<in> dom (heap st2)"
              proof (cases "t = dir_inode dr")
                case True
                with ino x y same show ?thesis by auto
              next
                case False
                with oth x show ?thesis by auto
              qed
              from Some fnd have found by simp
              with tp ntl \<open>d = Some dr\<close> ino False dl cl res Some
              have rec: "retrieve_loop rest buf is_parent (Some (dr\<lparr>dir_inode := t\<rparr>)) nm st2 = Inr (r, fn', st')"
                by (subst (asm) retrieve_loop.simps) (auto split: if_splits)
              have "table_ok st' \<and> itable.more st' = itable.more st2 \<and> free_map st' = free_map st2 \<and>
                    (\<forall>dd. r = Some dd \<longrightarrow> dir_inode dd \<in> dom (heap st'))"
                using tp ntl \<open>d = Some dr\<close> ino False dl cl \<open>found\<close> Some ok2 tl rec
                by (intro "1.IH") auto
              with f1 f2 show ?thesis by simp
            qed
          qed
        qed
      qed
    qed
  qed
qed

lemma none_in_use_iff: "none_in_use es \<longleftrightarrow> (\<forall>e\<in>set es. \<not> in_use e)"
  by (induction es) auto

lemma retrieve_dir_from_location_ok:
  assumes ok: "table_ok st"
    and res: "retrieve_dir_from_location root path buf ip st = Inr (r, fn, st')"
  shows "table_ok st' \<and> itable.more st' = itable.more st \<and> free_map st' = free_map st \<and>
         (\<forall>dd. r = Some dd \<longrightarrow> dir_inode dd \<in> dom (heap st'))"
proof (cases "path = []")
  case True
  with res ok show ?thesis by (simp add: retrieve_dir_from_location_def)
next
  case False
  define first where "first = (if hd path = CHR ''/'' then inode_open root st else inode_reopen (cwd st) st)"
  from res False obtain p st1 where f: "first = Inr (p, st1)"
    unfolding first_def by (auto simp: retrieve_dir_from_location_def split: sum.splits if_splits)
  have f1: "table_ok st1 \<and> itable.more st1 = itable.more st \<and> free_map st1 = free_map st \<and>
            (\<forall>a. p = Some a \<longrightarrow> a \<in> dom (heap st1))"
  proof (cases "hd path = CHR ''/''")
    case True
    with f have "inode_open root st = Inr (p, st1)" by (simp add: first_def)
    from inode_open_ok [OF ok this] show ?thesis by auto
  next
    case False
    with f have r: "inode_reopen (cwd st) st = Inr (p, st1)" by (simp add: first_def)
    from inode_reopen_ok [OF ok r] r show ?thesis
      by (auto simp: inode_reopen_def split: option.splits)
  qed
  then have ok1: "table_ok st1" and live: "\<forall>a. p = Some a \<longrightarrow> a \<in> dom (heap st1)" by simp_all
  from dir_open_ok [OF ok1 live] obtain d st2 where
    d: "dir_open p st1 = Inr (d, st2)" and ok2: "table_ok st2"
    and f2: "itable.more st2 = itable.more st1" "free_map st2 = free_map st1"
    and dl: "\<forall>dd. d = Some dd \<longrightarrow> dir_inode dd \<in> dom (heap st2)" by blast
  from res False f d have "retrieve_loop path buf ip d [] st2 = Inr (r, fn, st')"
    by (simp add: retrieve_dir_from_location_def first_def)
  from retrieve_loop_ok [OF ok2 dl this] f1 f2 show ?thesis by simp
qed

text \<open>
  C7. Let the parent resolution of a path succeed with the directory \<open>d\<close> and the leaf name
  \<open>fname\<close>, and let the first entry in use with that name in \<open>d\<close> be \<open>e\<close>. If the inode of
  \<open>e\<close> is a directory with an entry in use beyond its first two, \<open>filesys_remove\<close> returns
  false and leaves every directory as it was, so that \<open>e\<close> is still in use in its parent;
  and whenever \<open>filesys_remove\<close> returns true, the inode of \<open>e\<close> is not such a directory.
\<close>

theorem nonempty_directory_not_removed:
  assumes ok: "table_ok st"
    and res: "retrieve_dir_from_location root path (fst (malloc st) \<noteq> None) True (snd (malloc st))
                = Inr (Some d, fname, st1)"
    and par: "heap st1 (dir_inode d) = Some pino"
    and ent: "find_entry fname (recs st (sector pino)) 0 = Some (e, ofs)"
  shows "(isdir st (inode_sector e) \<and> (\<exists>x\<in>set (drop 2 (recs st (inode_sector e))). in_use x) \<longrightarrow>
            (\<exists>st'. filesys_remove root path st = Inr (False, st') \<and>
                   recs st' = recs st \<and> isdir st' = isdir st)) \<and>
         (\<forall>st'. filesys_remove root path st = Inr (True, st') \<longrightarrow>
            \<not> (isdir st (inode_sector e) \<and> (\<exists>x\<in>set (drop 2 (recs st (inode_sector e))). in_use x)))"
proof -
  obtain q st0 where m: "malloc st = (q, st0)" by (cases "malloc st")
  note ok0 = malloc_ok [OF ok m]
  from malloc_frame [OF m] ns_more_frame [of st0 st]
  have f0: "recs st0 = recs st" "isdir st0 = isdir st" by simp_all
  from res m have res0: "retrieve_dir_from_location root path (q \<noteq> None) True st0 = Inr (Some d, fname, st1)"
    by simp
  from retrieve_dir_from_location_ok [OF ok0 res0] ns_more_frame [of st1 st0]
  have ok1: "table_ok st1" and f1: "recs st1 = recs st0" "isdir st1 = isdir st0" by simp_all
  from dir_lookup_ok [OF ok1 par, of fname] obtain found p st2 where
    dl: "dir_lookup d fname st1 = Inr (found, p, st2)" and ok2: "table_ok st2"
    and m2: "itable.more st2 = itable.more st1"
    and keep: "\<forall>a x. heap st1 a = Some x \<longrightarrow> (\<exists>y. heap st2 a = Some y \<and> sector y = sector x)"
    and fnd: "found \<longleftrightarrow> p \<noteq> None"
    and tmp: "\<forall>a. p = Some a \<longrightarrow>
              (\<exists>x e ofs. heap st2 a = Some x \<and>
                 find_entry fname (recs st1 (sector pino)) 0 = Some (e, ofs) \<and> sector x = inode_sector e \<and>
                 (a \<in> dom (heap st1) \<longrightarrow> 2 \<le> open_cnt x))"
    by blast
  from m2 ns_more_frame [of st2 st1] have f2: "recs st2 = recs st1" "isdir st2 = isdir st1" by simp_all
  from keep par obtain y where y: "heap st2 (dir_inode d) = Some y" by blast
  have refuse: "\<exists>st'. filesys_remove root path st = Inr (False, st') \<and>
                   recs st' = recs st \<and> isdir st' = isdir st"
    if nonempty: "isdir st (inode_sector e)" "\<exists>x\<in>set (drop 2 (recs st (inode_sector e))). in_use x"
  proof (cases p)
    case None
    from ns_inode_close_ok [OF ok2 y] obtain st3 where
      c: "ns_inode_close (Some (dir_inode d)) st2 = Inr st3" "itable.more st3 = itable.more st2" by blast
    with ns_more_frame [of st3 st2] have "recs st3 = recs st2" "isdir st3 = isdir st2" by simp_all
    with None fnd m res0 dl c f0 f1 f2 show ?thesis
      by (simp add: filesys_remove_def filesys_remove_done_def dir_close_def)
  next
    case (Some f)
    with tmp ent f0 f1 obtain x where x: "heap st2 f = Some x" "sector x = inode_sector e"
      "f \<in> dom (heap st1) \<longrightarrow> 2 \<le> open_cnt x" by auto
    from ns_inode_close_ok [OF ok2 x(1)] obtain st3 where
      c3: "ns_inode_close (Some f) st2 = Inr st3" and ok3: "table_ok st3"
      and m3: "itable.more st3 = itable.more st2"
      and oth: "\<forall>b. b \<noteq> f \<longrightarrow> heap st3 b = heap st2 b"
      and same: "2 \<le> open_cnt x \<longrightarrow> heap st3 f = Some (x\<lparr>open_cnt := open_cnt x - 1\<rparr>)" by blast
    have "\<exists>z. heap st3 (dir_inode d) = Some z"
    proof (cases "dir_inode d = f")
      case True
      with par x same show ?thesis by auto
    next
      case False
      with oth y show ?thesis by auto
    qed
    then obtain z where z: "heap st3 (dir_inode d) = Some z" by blast
    from ns_inode_close_ok [OF ok3 z] obtain st4 where
      c4: "ns_inode_close (Some (dir_inode d)) st3 = Inr st4" and m4: "itable.more st4 = itable.more st3" by blast
    from m3 m4 ns_more_frame [of st3 st2] ns_more_frame [of st4 st3]
    have f4: "recs st4 = recs st2" "isdir st4 = isdir st2" by simp_all
    have isd: "ns_is_directory (Some f) st2 = Inr True"
      using x nonempty f0 f1 f2 by (simp add: ns_is_directory_def)
    have emp: "is_empty_dir (Some f) st2 = Inr False"
      using x nonempty f0 f1 f2 by (simp add: is_empty_dir_def none_in_use_iff)
    from Some fnd m res0 dl isd emp c3 c4 f0 f1 f2 f4 show ?thesis
      by (simp add: filesys_remove_def filesys_remove_done_def dir_close_def)
  qed
  show ?thesis
  proof (intro conjI impI allI)
    assume "isdir st (inode_sector e) \<and> (\<exists>x\<in>set (drop 2 (recs st (inode_sector e))). in_use x)"
    then show "\<exists>st'. filesys_remove root path st = Inr (False, st') \<and>
                   recs st' = recs st \<and> isdir st' = isdir st"
      using refuse by blast
  next
    fix st' assume t: "filesys_remove root path st = Inr (True, st')"
    show "\<not> (isdir st (inode_sector e) \<and> (\<exists>x\<in>set (drop 2 (recs st (inode_sector e))). in_use x))"
    proof
      assume "isdir st (inode_sector e) \<and> (\<exists>x\<in>set (drop 2 (recs st (inode_sector e))). in_use x)"
      with refuse obtain st'' where "filesys_remove root path st = Inr (False, st'')" by blast
      with t show False by simp
    qed
  qed
qed

theorem nonempty_directory_not_removed_witness:
  "\<exists>st'. filesys_remove 1 ''/d'' dir_ns = Inr (False, st') \<and> recs st' = recs dir_ns"
proof -
  have ok: "table_ok dir_ns"
    by (simp add: table_ok_def one_inode_per_sector_def dir_ns_def)
  define st1 where "st1 = dir_ns\<lparr>mem := [], next_addr := 3, open_inodes := [1],
      heap := (\<lambda>a. None)(1 \<mapsto> \<lparr>sector = 1, open_cnt = 1, removed = False, deny_write_cnt = 0\<rparr>)\<rparr>"
  have res: "retrieve_dir_from_location 1 ''/d'' (fst (malloc dir_ns) \<noteq> None) True (snd (malloc dir_ns))
                = Inr (Some \<lparr>dir_inode = 1, dir_pos = 0\<rparr>, ''d'', st1)"
    apply (simp add: retrieve_dir_from_location_def malloc_def Let_def dir_ns_def inode_open_def
        dir_open_def st1_def)
    apply (subst retrieve_loop.simps)
    apply (simp add: trace_path_def NAME_MAX_def)
    done
  have par: "heap st1 (dir_inode \<lparr>dir_inode = 1, dir_pos = 0\<rparr>) =
      Some \<lparr>sector = 1, open_cnt = 1, removed = False, deny_write_cnt = 0\<rparr>"
    by (simp add: st1_def)
  have ent: "find_entry ''d'' (recs dir_ns (sector \<lparr>sector = 1, open_cnt = 1, removed = False, deny_write_cnt = 0\<rparr>)) 0
      = Some (\<lparr>inode_sector = 2, name = ''d'', in_use = True\<rparr>, 2)"
    by (simp add: dir_ns_def)
  have ne: "isdir dir_ns (inode_sector \<lparr>inode_sector = 2, name = ''d'', in_use = True\<rparr>) \<and>
      (\<exists>x\<in>set (drop 2 (recs dir_ns (inode_sector \<lparr>inode_sector = 2, name = ''d'', in_use = True\<rparr>))). in_use x)"
    by (simp add: dir_ns_def)
  from nonempty_directory_not_removed [OF ok res par ent] ne show ?thesis by blast
qed

text \<open>
  C6. The claim fails for the resolution of the leaf itself. For the path
  \<open>/aaaaaaaaaaaaaaa\<close>, whose only component has 15 characters, \<open>trace_path\<close> sets
  \<open>too_long\<close>, the loop of \<open>retrieve_dir_from_location\<close> is left by \<open>break\<close>, and with
  \<open>is_parent\<close> false the function returns the directory reached so far, the root, not
  null; \<open>filesys_open\<close> then hands the inode of the root directory (sector 1) to
  \<open>file_open\<close>.
\<close>

theorem long_leaf_resolves_to_directory:
  "(\<exists>st'. retrieve_dir_from_location 1 ''/aaaaaaaaaaaaaaa'' True False blank_ns
           = Inr (Some \<lparr>dir_inode = 0, dir_pos = 0\<rparr>, ''aaaaaaaaaaaaaa'', st') \<and>
          map_option sector (heap st' 0) = Some 1) \<and>
   (\<exists>st'. filesys_open 1 ''/aaaaaaaaaaaaaaa'' blank_ns = Inr (Some 1, st') \<and>
          map_option sector (heap st' 1) = Some 1)"
proof -
  have tp: "trace_path ''/aaaaaaaaaaaaaaa'' True = Inr (Some ([], True, ''aaaaaaaaaaaaaa''))"
    by (simp add: trace_path_def NAME_MAX_def)
  have loop: "retrieve_loop ''/aaaaaaaaaaaaaaa'' True False d fn st = Inr (d, ''aaaaaaaaaaaaaa'', st)"
    for d fn st
    by (subst retrieve_loop.simps) (simp add: tp)
  show ?thesis
    by (simp add: filesys_open_def retrieve_dir_from_location_def malloc_def Let_def blank_ns_def
          inode_open_def dir_open_def loop del: retrieve_loop.simps)
qed

section \<open>Paths of separators only\<close>

lemma ns_inode_close_live:
  assumes "\<forall>a. p = Some a \<longrightarrow> heap st a \<noteq> None"
  shows "\<exists>st1. ns_inode_close p st = Inr st1 \<and> itable.more st1 = itable.more st
           \<and> free_map st1 = free_map st"
  using assms
  by (cases p) (auto simp: ns_inode_close_def inode_close_with_def Let_def)

lemma dir_open_total:
  assumes "\<forall>a. p = Some a \<longrightarrow> heap st a \<noteq> None"
  shows "\<exists>d st1. dir_open p st = Inr (d, st1) \<and> itable.more st1 = itable.more st
           \<and> free_map st1 = free_map st"
proof -
  obtain q st0 where m: "malloc st = (q, st0)" by (cases "malloc st")
  note f0 = malloc_frame [OF m]
  with assms have "\<forall>a. p = Some a \<longrightarrow> heap st0 a \<noteq> None" by simp
  from ns_inode_close_live [OF this] obtain st1 where
    "ns_inode_close p st0 = Inr st1" "itable.more st1 = itable.more st0" "free_map st1 = free_map st0"
    by blast
  with m f0 show ?thesis
    by (cases p; cases q) (simp_all add: dir_open_def)
qed

lemma trace_path_slashes:
  assumes "set path \<subseteq> {CHR ''/''}"
  shows "trace_path path buf = Inr None"
proof -
  from assms have "dropWhile (\<lambda>c. c = CHR ''/'') path = []"
    by (auto simp: dropWhile_eq_Nil_conv)
  then show ?thesis by (simp add: trace_path_def)
qed

lemma retrieve_parent_slashes:
  assumes inv: "one_inode_per_sector st" and sl: "set path \<subseteq> {CHR ''/''}"
  shows "\<exists>fname st'. retrieve_dir_from_location root path buf True st = Inr (None, fname, st')
           \<and> itable.more st' = itable.more st \<and> free_map st' = free_map st"
proof (cases "path = []")
  case True
  then show ?thesis by (simp add: retrieve_dir_from_location_def)
next
  case False
  with sl have hd: "hd path = CHR ''/''" by (cases path) auto
  from inode_open_total [OF inv, of root] obtain p st1 where
    o: "inode_open root st = Inr (p, st1)" by blast
  note f1 = inode_open_result [OF o]
  then have "\<forall>a. p = Some a \<longrightarrow> heap st1 a \<noteq> None" by simp
  from dir_open_total [OF this] obtain d st2 where
    d: "dir_open p st1 = Inr (d, st2)" "itable.more st2 = itable.more st1" "free_map st2 = free_map st1"
    by blast
  have "retrieve_loop path buf True d [] st2 = Inr (None, [], st2)"
    by (subst retrieve_loop.simps) (simp add: trace_path_slashes [OF sl])
  with False hd o d f1 show ?thesis
    by (simp add: retrieve_dir_from_location_def)
qed

text \<open>
  C10. For a path that consists of \<open>/\<close> only (the empty path included), the parent
  resolution returns null whatever the buffer and the state of a table with one inode
  for each sector, and \<open>filesys_create\<close> and \<open>filesys_remove\<close> return false and leave
  every directory, the kind of every inode and the free map as they were.
\<close>

theorem only_slashes_resolve_to_null:
  assumes "one_inode_per_sector st" and "set path \<subseteq> {CHR ''/''}"
  shows "(\<exists>fname st'. retrieve_dir_from_location root path buf True st = Inr (None, fname, st')) \<and>
         (\<exists>st'. filesys_create root path initial_size st = Inr (False, st')
                \<and> recs st' = recs st \<and> isdir st' = isdir st \<and> free_map st' = free_map st) \<and>
         (\<exists>st'. filesys_remove root path st = Inr (False, st')
                \<and> recs st' = recs st \<and> isdir st' = isdir st \<and> free_map st' = free_map st)"
proof -
  obtain q st0 where m: "malloc st = (q, st0)" by (cases "malloc st")
  from malloc_frame [OF m] ns_more_frame [of st0 st]
  have h: "recs st0 = recs st" "isdir st0 = isdir st" "free_map st0 = free_map st" by simp_all
  from assms(1) m have inv0: "one_inode_per_sector st0" by (rule malloc_inv)
  from retrieve_parent_slashes [OF inv0 assms(2), of root "q \<noteq> None"] obtain fname st1 where
    r: "retrieve_dir_from_location root path (q \<noteq> None) True st0 = Inr (None, fname, st1)"
      "itable.more st1 = itable.more st0" "free_map st1 = free_map st0"
    by blast
  with ns_more_frame [of st1 st0] have h1: "recs st1 = recs st0" "isdir st1 = isdir st0" by simp_all
  from m r have "filesys_create root path initial_size st = Inr (False, st1)"
    and "filesys_remove root path st = Inr (False, st1)"
    by (simp_all add: filesys_create_def filesys_remove_def)
  with r h h1 retrieve_parent_slashes [OF assms, of root buf] show ?thesis by auto
qed

theorem only_slashes_resolve_to_null_witness:
  "one_inode_per_sector blank_ns \<and> set ''//'' \<subseteq> {CHR ''/''} \<and>
   (\<exists>st'. filesys_remove 1 ''//'' blank_ns = Inr (False, st') \<and> recs st' = recs blank_ns) \<and>
   (\<exists>st'. filesys_create 1 ''//'' 0 blank_ns = Inr (False, st') \<and> recs st' = recs blank_ns)"
proof -
  have inv: "one_inode_per_sector blank_ns"
    by (simp add: one_inode_per_sector_def blank_ns_def)
  have sl: "set ''//'' \<subseteq> {CHR ''/''}" by simp
  from only_slashes_resolve_to_null [OF inv sl, of 1 True 0] inv sl show ?thesis by blast
qed

text \<open>
  C10, as the claim ends, fails: the root directory can be removed through
  \<open>filesys_remove\<close>, by the name \<open>/.\<close>. The parent resolution of \<open>/.\<close> returns the root
  with the leaf \<open>.\<close>, the lookup of \<open>.\<close> finds the root itself, \<open>is_empty_dir\<close> looks at
  the entries behind the first two only, and \<open>dir_remove\<close> clears the entry and marks the
  inode of the root as removed: on a root that holds \<open>.\<close> and \<open>..\<close> only the call returns
  true.
\<close>

theorem root_removed_through_dot:
  "\<exists>st'. filesys_remove 1 ''/.'' blank_ns = Inr (True, st') \<and>
         recs blank_ns 1 = [\<lparr>inode_sector = 1, name = ''.'', in_use = True\<rparr>,
                            \<lparr>inode_sector = 1, name = ''..'', in_use = True\<rparr>] \<and>
         recs st' 1 = [\<lparr>inode_sector = 1, name = ''.'', in_use = False\<rparr>,
                       \<lparr>inode_sector = 1, name = ''..'', in_use = True\<rparr>]"
proof -
  have tp: "trace_path ''/.'' True = Inr (Some ([], False, ''.''))"
    by (simp add: trace_path_def NAME_MAX_def)
  show ?thesis
    apply (simp add: filesys_remove_def retrieve_dir_from_location_def
          malloc_def Let_def blank_ns_def inode_open_def dir_open_def)
    apply (subst retrieve_loop.simps)
    apply (simp add: tp filesys_remove_done_def
          malloc_def Let_def inode_open_def dir_open_def dir_close_def dir_lookup_def lookup_def
          ns_is_directory_def is_empty_dir_def dir_remove_def write_entry_def
          inode_remove_def ns_inode_close_def inode_close_with_def inode_reopen_def)
    done
qed

section \<open>Write-back before eviction\<close>

lemma same_but_accessed_refl: "same_but_accessed sl sl"
  by (simp add: same_but_accessed_def)

lemma same_but_accessed_trans:
  "same_but_accessed sl sl1 \<Longrightarrow> same_but_accessed sl1 sl2 \<Longrightarrow> same_but_accessed sl sl2"
  unfolding same_but_accessed_def
  by (metis cache.surjective cache.update_convs(3))

lemma same_but_accessed_fields:
  assumes "same_but_accessed sl sl'"
  shows "disk_sector (sl' a) = disk_sector (sl a)" "block_data (sl' a) = block_data (sl a)"
    "is_dirty (sl' a) = is_dirty (sl a)" "is_available (sl' a) = is_available (sl a)"
  using assms unfolding same_but_accessed_def
  by (metis cache.select_convs cache.surjective cache.update_convs(3))+

lemma find_pass_frame:
  "find_pass s es t sl = (r, t', sl') \<Longrightarrow> same_but_accessed sl sl'"
proof (induction s es t sl rule: find_pass.induct)
  case (1 s temp_buf sl)
  then show ?case by (simp add: same_but_accessed_refl)
next
  case (2 s buf es temp_buf sl)
  show ?case
  proof (cases "s = disk_sector (sl buf)")
    case True
    with "2.prems" show ?thesis by (simp add: same_but_accessed_refl)
  next
    case ns: False
    show ?thesis
    proof (cases "is_available (sl buf)")
      case False
      with ns 2 show ?thesis by simp
    next
      case av: True
      show ?thesis
      proof (cases "accessed (sl buf)")
        case False
        with ns av 2 show ?thesis by simp
      next
        case True
        have step: "same_but_accessed sl (sl(buf := (sl buf)\<lparr>accessed := False\<rparr>))"
          by (simp add: same_but_accessed_def)
        from True ns av "2.prems"
        have "find_pass s es temp_buf (sl(buf := (sl buf)\<lparr>accessed := False\<rparr>)) = (r, t', sl')"
          by simp
        from "2.IH"(1) [OF ns av True this] step show ?thesis
          by (rule same_but_accessed_trans [rotated])
      qed
    qed
  qed
qed

lemma find_buffer_frame:
  assumes "find_buffer s st = Some y"
  shows "cache_frame st (snd y)"
proof (rule find_buffer.raw_induct [where P = "\<lambda>s st y. cache_frame st (snd y)", OF _ assms])
  fix fb s st y
  assume IH: "\<And>s st y. fb s st = Some y \<Longrightarrow> cache_frame st (snd y)"
    and eq: "(case find_pass s (cache_list st) None (slots st) of
                (None, None, sl) \<Rightarrow> fb s (st\<lparr>slots := sl\<rparr>)
              | (None, Some temp_buf, sl) \<Rightarrow> Some (temp_buf, st\<lparr>slots := sl\<rparr>)
              | (Some buf, temp_buf, sl) \<Rightarrow> Some (buf, st\<lparr>slots := sl\<rparr>)) = Some y"
  obtain r t sl where fp: "find_pass s (cache_list st) None (slots st) = (r, t, sl)"
    by (cases "find_pass s (cache_list st) None (slots st)")
  note fr = find_pass_frame [OF fp]
  show "cache_frame st (snd y)"
  proof (cases r)
    case (Some b)
    with fp eq fr show ?thesis by (auto simp: cache_frame_def)
  next
    case None
    show ?thesis
    proof (cases t)
      case (Some tb)
      with None fp eq fr show ?thesis by (auto simp: cache_frame_def)
    next
      case tn: None
      with None fp eq have "fb s (st\<lparr>slots := sl\<rparr>) = Some y" by simp
      then have "cache_frame (st\<lparr>slots := sl\<rparr>) (snd y)" by (rule IH)
      with fr show ?thesis
        by (auto simp: cache_frame_def intro: same_but_accessed_trans)
    qed
  qed
qed

lemma cache_frame_fields:
  assumes "cache_frame st st1"
  shows "disk_sector (slots st1 a) = disk_sector (slots st a)"
    "block_data (slots st1 a) = block_data (slots st a)"
    "is_dirty (slots st1 a) = is_dirty (slots st a)"
    "cache_list st1 = cache_list st" "disk st1 = disk st" "dev_log st1 = dev_log st"
  using assms same_but_accessed_fields [of "slots st" "slots st1"]
  by (simp_all add: cache_frame_def)

lemma allocate_buffer_write_back:
  assumes al: "allocate_buffer s st = Some (Inr (buf, st'))"
    and dirty: "is_dirty (slots st a)"
    and moved: "disk_sector (slots st' a) \<noteq> disk_sector (slots st a)"
  shows "a = buf \<and> disk_sector (slots st' a) = s \<and>
         dev_log st' = dev_log st @ [BlockWrite (disk_sector (slots st a)) (block_data (slots st a)),
                                     BlockRead s] \<and>
         disk st' (disk_sector (slots st a)) = block_data (slots st a)"
proof -
  from al obtain b st1 where fb0: "find_buffer s st = Some (b, st1)"
    by (cases "find_buffer s st") (auto simp: allocate_buffer_def)
  with al have "b = buf"
    by (auto simp: allocate_buffer_def Let_def block_read_def split: if_splits)
  with fb0 have fb: "find_buffer s st = Some (buf, st1)" by simp
  from find_buffer_frame [OF fb] have fr: "cache_frame st st1" by simp
  note f = cache_frame_fields [OF fr]
  show ?thesis
  proof (cases "s = disk_sector (slots st1 buf)")
    case True
    with al fb have "st' = upd_slot buf (\<lambda>c. c\<lparr>accessed := True\<rparr>) st1"
      by (auto simp: allocate_buffer_def split: if_splits)
    with moved f(1) [of a] show ?thesis by (auto simp: upd_slot_def split: if_splits)
  next
    case False
    show ?thesis
    proof (cases "a = buf")
      case ne: False
      from al fb False have "slots st' a = slots st1 a"
        using ne by (auto simp: allocate_buffer_def Let_def upd_slot_def block_write_def block_read_def
                      split: if_splits)
      with moved f(1) [of a] show ?thesis by simp
    next
      case True
      with dirty f(3) [of buf] have d1: "is_dirty (slots st1 buf)" by simp
      from al fb False d1 have
        "disk_sector (slots st' buf) = s"
        "dev_log st' = dev_log st1 @ [BlockWrite (disk_sector (slots st1 buf)) (block_data (slots st1 buf)),
                                     BlockRead s]"
        "disk st' (disk_sector (slots st1 buf)) = block_data (slots st1 buf)"
        by (auto simp: allocate_buffer_def Let_def upd_slot_def block_write_def block_read_def)
      with True f(1,2) [of buf] f(6) show ?thesis by simp
    qed
  qed
qed

lemma deallocate_buffer_sectors:
  "disk_sector (slots (deallocate_buffer buf dirty st) a) = disk_sector (slots st a)"
  by (simp add: deallocate_buffer_def upd_slot_def Let_def)

lemma flush_slot_sectors:
  "disk_sector (slots (flush_slot buf st) a) = disk_sector (slots st a)"
  by (simp add: flush_slot_def deallocate_buffer_def upd_slot_def block_write_def Let_def)

lemma write_dirty_loop_sectors:
  "write_dirty_loop e st = Inr st' \<Longrightarrow> disk_sector (slots st' a) = disk_sector (slots st a)"
proof (induction e st rule: write_dirty_loop.induct)
  case (1 e st)
  show ?case
  proof (cases "e < length (cache_list st)")
    case False
    with "1.prems" show ?thesis by (subst (asm) write_dirty_loop.simps) simp
  next
    case True
    define buf where "buf = cache_list st ! e"
    show ?thesis
    proof (cases "is_dirty (slots st buf)")
      case False
      with True "1.prems" have "write_dirty_loop (Suc e) st = Inr st'"
        by (subst (asm) write_dirty_loop.simps) (simp add: buf_def)
      from "1.IH"(2) [OF True buf_def False this] show ?thesis .
    next
      case d: True
      show ?thesis
      proof (cases "is_available (slots st buf)")
        case False
        with True d "1.prems" show ?thesis
          by (subst (asm) write_dirty_loop.simps) (simp add: buf_def)
      next
        case av: True
        with True d "1.prems" have "write_dirty_loop 0 (flush_slot buf st) = Inr st'"
          by (subst (asm) write_dirty_loop.simps) (simp add: buf_def)
        from "1.IH"(1) [OF True buf_def d _ this] av show ?thesis
          by (simp add: flush_slot_sectors)
      qed
    qed
  qed
qed

lemma flush_slot_log:
  "dev_log (flush_slot buf st) =
     dev_log st @ [BlockWrite (disk_sector (slots st buf)) (block_data (slots st buf))]"
  by (simp add: flush_slot_def deallocate_buffer_def upd_slot_def block_write_def Let_def)

lemma write_dirty_loop_log:
  "write_dirty_loop e st = Inr st' \<Longrightarrow> \<exists>evs. dev_log st' = dev_log st @ evs"
proof (induction e st rule: write_dirty_loop.induct)
  case (1 e st)
  show ?case
  proof (cases "e < length (cache_list st)")
    case False
    with "1.prems" show ?thesis by (subst (asm) write_dirty_loop.simps) simp
  next
    case True
    define buf where "buf = cache_list st ! e"
    show ?thesis
    proof (cases "is_dirty (slots st buf)")
      case False
      with True "1.prems" have "write_dirty_loop (Suc e) st = Inr st'"
        by (subst (asm) write_dirty_loop.simps) (simp add: buf_def)
      from "1.IH"(2) [OF True buf_def False this] show ?thesis .
    next
      case d: True
      show ?thesis
      proof (cases "is_available (slots st buf)")
        case False
        with True d "1.prems" show ?thesis
          by (subst (asm) write_dirty_loop.simps) (simp add: buf_def)
      next
        case av: True
        with True d "1.prems" have "write_dirty_loop 0 (flush_slot buf st) = Inr st'"
          by (subst (asm) write_dirty_loop.simps) (simp add: buf_def)
        from "1.IH"(1) [OF True buf_def d _ this] av show ?thesis
          by (auto simp: flush_slot_log)
      qed
    qed
  qed
qed

lemma allocate_buffer_log:
  assumes "allocate_buffer s st = Some (Inr (buf, st'))"
  shows "\<exists>evs. dev_log st' = dev_log st @ evs"
proof -
  from assms obtain b st1 where fb: "find_buffer s st = Some (b, st1)"
    by (cases "find_buffer s st") (auto simp: allocate_buffer_def)
  from find_buffer_frame [OF fb] have "dev_log st1 = dev_log st" by (simp add: cache_frame_def)
  with assms fb show ?thesis
    by (auto simp: allocate_buffer_def Let_def upd_slot_def block_write_def block_read_def
             split: if_splits)
qed

lemma cache_step_log:
  assumes "cache_step op st = Some (Inr st')"
  shows "\<exists>evs. dev_log st' = dev_log st @ evs"
proof (cases op)
  case (Allocate s)
  with assms obtain buf where "allocate_buffer s st = Some (Inr (buf, st'))"
    by (cases "allocate_buffer s st") (auto simp: map_sum_def split: sum.splits)
  then show ?thesis by (rule allocate_buffer_log)
next
  case (Deallocate buf dirty)
  with assms show ?thesis by (auto simp: deallocate_buffer_def upd_slot_def Let_def)
next
  case WriteDirty
  with assms show ?thesis by (auto simp: write_dirty_to_disk_def dest: write_dirty_loop_log)
next
  case (Fill buf b)
  with assms show ?thesis by (auto simp: upd_slot_def)
qed

lemma cache_run_log:
  "cache_run ops st = Some (Inr st') \<Longrightarrow> \<exists>evs. dev_log st' = dev_log st @ evs"
proof (induction ops arbitrary: st)
  case Nil
  then show ?case by simp
next
  case (Cons op ops)
  from Cons.prems obtain st1 where s1: "cache_step op st = Some (Inr st1)"
    and r: "cache_run ops st1 = Some (Inr st')"
    by (auto split: option.splits sum.splits)
  from cache_step_log [OF s1] Cons.IH [OF r] show ?case by auto
qed

text \<open>
  C9. In every run of cache operations (\<open>allocate_buffer\<close>, \<open>deallocate_buffer\<close>,
  \<open>write_dirty_to_disk\<close>, and a caller's copy into a buffer) from any state of the cache,
  if a step changes the sector of a slot that was dirty before the step, the step is an
  \<open>allocate_buffer\<close> of the new sector, and what it adds to the log of the device is first
  the \<open>block_write\<close> of the slot's data to its former sector, then the \<open>block_read\<close> of
  the new sector; the former sector holds that data on the device afterwards, and the
  log of the run so far is kept.
\<close>

theorem dirty_slot_written_back_before_reassigned:
  assumes run: "cache_run ops st0 = Some (Inr st)"
    and step: "cache_step op st = Some (Inr st')"
    and dirty: "is_dirty (slots st a)"
    and moved: "disk_sector (slots st' a) \<noteq> disk_sector (slots st a)"
  shows "op = Allocate (disk_sector (slots st' a)) \<and>
         dev_log st' = dev_log st @ [BlockWrite (disk_sector (slots st a)) (block_data (slots st a)),
                                     BlockRead (disk_sector (slots st' a))] \<and>
         disk st' (disk_sector (slots st a)) = block_data (slots st a) \<and>
         (\<exists>evs. dev_log st = dev_log st0 @ evs)"
proof -
  note hist = cache_run_log [OF run]
  show ?thesis
  proof (cases op)
    case (Allocate s)
    with step obtain buf where "allocate_buffer s st = Some (Inr (buf, st'))"
      by (cases "allocate_buffer s st") (auto simp: map_sum_def split: sum.splits)
    from allocate_buffer_write_back [OF this dirty moved] Allocate hist show ?thesis by auto
  next
    case (Deallocate buf d)
    with step moved show ?thesis by (auto simp: deallocate_buffer_sectors)
  next
    case WriteDirty
    with step moved show ?thesis
      by (auto simp: write_dirty_to_disk_def dest: write_dirty_loop_sectors)
  next
    case (Fill buf b)
    with step moved show ?thesis by (auto simp: upd_slot_def split: if_splits)
  qed
qed

theorem dirty_slot_written_back_before_reassigned_witness:
  "\<exists>st st'. cache_run [Allocate 5, Fill 0 [1], Deallocate 0 True, Allocate 7, Deallocate 1 False]
               (two_slots []) = Some (Inr st) \<and>
            cache_step (Allocate 8) st = Some (Inr st') \<and>
            is_dirty (slots st 0) \<and> disk_sector (slots st 0) = 5 \<and> disk_sector (slots st' 0) = 8 \<and>
            dev_log st' = dev_log st @ [BlockWrite 5 [1], BlockRead 8] \<and> disk st' 5 = [1]"
proof -
  have "\<exists>st st'. cache_run [Allocate 5, Fill 0 [1], Deallocate 0 True, Allocate 7, Deallocate 1 False]
               (two_slots []) = Some (Inr st) \<and>
            cache_step (Allocate 8) st = Some (Inr st') \<and>
            is_dirty (slots st 0) \<and> disk_sector (slots st 0) = 5 \<and> block_data (slots st 0) = [1] \<and>
            disk_sector (slots st' 0) = 8"
    by (simp add: two_slots_def allocate_buffer_def find_buffer.simps upd_slot_def Let_def
          deallocate_buffer_def block_read_def block_write_def)
  then obtain st st' where
    r: "cache_run [Allocate 5, Fill 0 [1], Deallocate 0 True, Allocate 7, Deallocate 1 False]
               (two_slots []) = Some (Inr st)"
    and s: "cache_step (Allocate 8) st = Some (Inr st')"
    and d: "is_dirty (slots st 0)" and v: "disk_sector (slots st 0) = 5" "block_data (slots st 0) = [1]"
      "disk_sector (slots st' 0) = 8"
    by blast
  from v have m: "disk_sector (slots st' 0) \<noteq> disk_sector (slots st 0)" by simp
  from dirty_slot_written_back_before_reassigned [OF r s d m] r s d v show ?thesis
    by auto
qed

section \<open>The walker and the loops\<close>

lemma c_mod_nonneg: "0 \<le> a \<Longrightarrow> 0 \<le> c_mod a 512 \<and> c_mod a 512 < 512 \<and> c_mod a 512 = a mod 512"
  by (cases "a = 0") (auto simp: c_mod_def c_div_def minus_mult_div_eq_mod)

lemma walk_idx:
  assumes "0 \<le> pos" "pos < 8255488"
  shows "to_size_t (c_div pos (int BLOCK_SECTOR_SIZE)) = nat (pos div 512)"
    and "to_size_t (c_div pos (int BLOCK_SECTOR_SIZE)) \<ge> DIRECT_BLOCKS \<longleftrightarrow> 63488 \<le> pos"
    and "63488 \<le> pos \<Longrightarrow> to_size_t (pos - int (BLOCK_SECTOR_SIZE * DIRECT_BLOCKS)) = nat (pos - 63488)"
proof -
  have d: "c_div pos 512 = pos div 512"
    using assms by (cases "pos = 0") (auto simp: c_div_def)
  have "0 \<le> pos div 512" "pos div 512 < 2 ^ 32" using assms by auto
  then show 1: "to_size_t (c_div pos (int BLOCK_SECTOR_SIZE)) = nat (pos div 512)"
    by (simp add: d to_size_t_def BLOCK_SECTOR_SIZE_def)
  show "to_size_t (c_div pos (int BLOCK_SECTOR_SIZE)) \<ge> DIRECT_BLOCKS \<longleftrightarrow> 63488 \<le> pos"
    unfolding 1 using assms by (auto simp: DIRECT_BLOCKS_def)
  show "63488 \<le> pos \<Longrightarrow> to_size_t (pos - int (BLOCK_SECTOR_SIZE * DIRECT_BLOCKS)) = nat (pos - 63488)"
    using assms by (simp add: to_size_t_def BLOCK_SECTOR_SIZE_def DIRECT_BLOCKS_def)
qed

text \<open>The walk returns when the byte is in the range of the tree and the first level finds
  or gets a sector.\<close>

lemma byte_to_sector_total:
  assumes r: "0 \<le> pos" "pos < 8255488"
    and nf: "first_free (free_map st) \<noteq> None \<or>
             disk_sectors (store st (sector ino)) DIRECT_BLOCKS \<noteq> 0 \<or> pos < 63488"
  shows "\<exists>s st'. byte_to_sector buff0 ino pos st = Inr (s, st')"
proof (cases "63488 \<le> pos")
  case False
  then have "\<not> DIRECT_BLOCKS \<le> nat (pos div 512)" using r by (auto simp: DIRECT_BLOCKS_def)
  then show ?thesis
    unfolding byte_to_sector_def Let_def walk_idx(1) [OF r]
    by (simp split: prod.splits)
next
  case True
  have j: "\<not> 128 < nat (pos - 63488) div 64000" "nat (pos - 63488) div 64000 \<noteq> 128"
    "\<not> 128 < nat (pos - 63488) div 512 mod 125" "nat (pos - 63488) div 512 mod 125 \<noteq> 128"
    using r by auto
  have i1: "to_size_t (pos - int (BLOCK_SECTOR_SIZE * DIRECT_BLOCKS)) div (BLOCKS_PER_SECTOR * BLOCK_SECTOR_SIZE) = nat (pos - 63488) div 64000"
    and i2: "to_size_t (pos - int (BLOCK_SECTOR_SIZE * DIRECT_BLOCKS)) div BLOCK_SECTOR_SIZE mod BLOCKS_PER_SECTOR = nat (pos - 63488) div 512 mod 125"
    using walk_idx(3) [OF r True]
    by (simp_all add: BLOCKS_PER_SECTOR_def BLOCK_SECTOR_SIZE_def)
  have d: "\<And>buff bd sec idx st. \<not> 128 < idx \<Longrightarrow> idx \<noteq> 128 \<Longrightarrow>
      \<exists>bd' sec' st'. byte_to_double_indirect_sec buff (Some bd) sec idx st = Inr (Some bd', sec', st')"
    by (auto simp: byte_to_double_indirect_sec_def Let_def split: prod.splits option.splits)
  have i: "DIRECT_BLOCKS \<le> nat (pos div 512)" using True r by (auto simp: DIRECT_BLOCKS_def)
  have "\<exists>b bd sec st1. byte_to_indirect_sector buff0 ino (nat (pos div 512)) st = (b, Some bd, sec, st1)"
    using nf True i
    by (auto simp: byte_to_indirect_sector_def Let_def free_map_allocate_def split: option.splits)
  then obtain b bd sec st1 where a: "byte_to_indirect_sector buff0 ino (nat (pos div 512)) st = (b, Some bd, sec, st1)"
    by blast
  obtain bd2 sec2 st2 where b: "byte_to_double_indirect_sec b (Some bd) sec (nat (pos - 63488) div 64000) st1
      = Inr (Some bd2, sec2, st2)"
    using d [OF j(1,2)] by blast
  obtain bd3 sec3 st3 where c: "byte_to_double_indirect_sec b (Some bd2) sec2 (nat (pos - 63488) div 512 mod 125) st2
      = Inr (Some bd3, sec3, st3)"
    using d [OF j(3,4)] by blast
  show ?thesis
    using i unfolding byte_to_sector_def Let_def walk_idx(1) [OF r] a i1 i2
    by (simp add: b c)
qed

text \<open>A full free map stays full.\<close>

lemma byte_to_double_indirect_sec_full:
  assumes "first_free (free_map st) = None"
    and "byte_to_double_indirect_sec buff bd sec idx st = Inr (a, b, st')"
  shows "st' = st"
  using assms
  by (auto simp: byte_to_double_indirect_sec_def Let_def free_map_allocate_def
        split: option.splits if_splits)

lemma byte_to_sector_full:
  assumes "byte_to_sector buff0 ino pos st = Inr (s, st1)"
    and "first_free (free_map st1) \<noteq> None"
  shows "first_free (free_map st) \<noteq> None"
proof
  assume f: "first_free (free_map st) = None"
  have a: "\<And>buff idx. snd (snd (snd (byte_to_indirect_sector buff ino idx st))) = st"
    using f by (simp add: byte_to_indirect_sector_def Let_def free_map_allocate_def)
  have "st1 = st"
    using assms(1) a [of buff0 "to_size_t (c_div pos (int BLOCK_SECTOR_SIZE))"]
      byte_to_double_indirect_sec_full [OF f]
    unfolding byte_to_sector_def Let_def
    by (auto split: prod.splits if_splits sum.splits dest!: byte_to_double_indirect_sec_full [OF f])
  then show False using assms(2) f by simp
qed


lemma write_loop_full:
  assumes "write_loop buff0 ino buffer sz offset bw st = Inr (bw', off', st')"
    and "first_free (free_map st') \<noteq> None"
  shows "first_free (free_map st) \<noteq> None"
  using assms
proof (induction buff0 ino buffer sz offset bw st rule: write_loop.induct)
  case (1 buff0 ino buffer sz offset bytes_written st)
  show ?case
  proof (cases "sz > 0")
    case False
    then show ?thesis using "1.prems" by (simp add: write_loop.simps)
  next
    case True
    then obtain s st1 where b: "byte_to_sector buff0 ino offset st = Inr (s, st1)"
      using "1.prems"(1) by (subst (asm) write_loop.simps) (auto split: sum.splits)
    have "first_free (free_map st1) \<noteq> None"
    proof (cases "s = NO_SECTOR")
      case True
      then show ?thesis using "1.prems" \<open>sz > 0\<close> b by (subst (asm) write_loop.simps) simp
    next
      case False
      define chunk where "chunk = (let sector_ofs = c_mod offset (int BLOCK_SECTOR_SIZE);
                    inode_left = MAX_FILE_SIZE - offset;
                    sector_left = int BLOCK_SECTOR_SIZE - sector_ofs;
                    min_left = (if inode_left < sector_left then inode_left else sector_left)
                in (if sz < min_left then sz else min_left))"
      define st2 where "st2 = write_block s
                             (copy_in (store st1 s) (nat (c_mod offset (int BLOCK_SECTOR_SIZE)))
                                (take (nat chunk) (drop (nat bytes_written) buffer))) st1"
      show ?thesis
      proof (cases "chunk \<le> 0")
        case True
        then show ?thesis using "1.prems" \<open>sz > 0\<close> b False
          by (subst (asm) write_loop.simps) (simp add: chunk_def Let_def)
      next
        case c: False
        have oob: "\<not> (c_mod offset (int BLOCK_SECTOR_SIZE) < 0 \<or> int (length buffer) < bytes_written + chunk)"
          using "1.prems"(1) \<open>sz > 0\<close> b False c
          by (subst (asm) write_loop.simps) (auto simp add: chunk_def Let_def split: if_splits)
        have rec: "write_loop buff0 ino buffer sz offset bytes_written st =
                   write_loop buff0 ino buffer (sz - chunk) (offset + chunk) (bytes_written + chunk) st2"
          using \<open>sz > 0\<close> b False c oob
          by (subst write_loop.simps) (simp add: chunk_def Let_def st2_def)
        have "first_free (free_map st2) \<noteq> None"
          unfolding st2_def using \<open>sz > 0\<close> b False c oob "1.prems" rec
          by (intro "1.IH") (auto simp: chunk_def Let_def st2_def)
        then show ?thesis by (simp add: write_block_def st2_def)
      qed
    qed
    with b show ?thesis by (rule byte_to_sector_full)
  qed
qed

section \<open>The walker on a blank device\<close>

lemma length_zero_block: "length zero_block = 512"
  by (simp add: zero_block_def)

lemma replicate_6: "replicate 6 x = [x, x, x, x, x, x]"
  by (simp add: numeral_eq_Suc)

lemma zero_block_update: "zero_block[i := 0] = zero_block"
  by (cases "i < 512") (auto simp: zero_block_def list_eq_iff_nth_eq nth_list_update)

lemma take_5_zero_block: "take 5 zero_block = [0, 0, 0, 0, 0]"
  by (simp add: zero_block_def numeral_eq_Suc)

lemma length_copy_in:
  "ofs + length chunk \<le> length b \<Longrightarrow> length (copy_in b ofs chunk) = length b"
  by (simp add: copy_in_def)

lemmas eval_defs = replicate_6 zero_block_update take_5_zero_block numeral_2_eq_2 [symmetric]
  byte_to_sector_def byte_to_indirect_sector_def byte_to_double_indirect_sec_def
  free_map_allocate_def write_block_def disk_sectors_def set_disk_sectors_def
  disk_length_def set_disk_length_def inode_length_def
  to_size_t_def c_div_def c_mod_def
  BLOCK_SECTOR_SIZE_def DIRECT_BLOCKS_def BLOCKS_PER_SECTOR_def MAX_FILE_SIZE_def NO_SECTOR_def
  get32_zero_block get32_put32_same get32_put32_other length_put32 length_zero_block
  Let_def blank_fs_def

lemmas rw_defs = inode_write_at_def inode_read_at_def write_loop.simps read_loop.simps
  start_read_ahead_def read_next_sector_def opened_def length_copy_in

text \<open>
  C1. The claim fails on the code. On a blank device (sectors 0 and 1 in use, the empty
  inode at sector 1) a write of one byte at offset 127488 returns 1 and leaves
  \<open>sectors[125]\<close> zero: the walk goes through \<open>sectors[124]\<close> (sector 2), its slot 1
  (sector 3) and the slot 0 of that sector (the data sector 4). Likewise the byte at
  offset 63488 (\<open>idx = 124\<close>) is not found in slot 0 of the sector held at \<open>sectors[124]\<close>:
  that slot holds sector 3, a second sector of pointers, whose slot 0 holds the data
  sector 4.
\<close>

theorem double_indirect_sector_never_used:
  "(\<exists>st'. inode_write_at True (opened 1) [7] 1 127488 (blank_fs 6) = Inr (1, st') \<and>
          disk_sectors (store st' 1) 125 = 0 \<and> disk_sectors (store st' 1) 124 = 2 \<and>
          get32 (store st' 2) 1 = 3 \<and> get32 (store st' 3) 0 = 4) \<and>
   (\<exists>st'. byte_to_sector True (opened 1) 63488 (blank_fs 6) = Inr (4, st') \<and>
          disk_sectors (store st' 1) 124 = 2 \<and> get32 (store st' 2) 0 = 3 \<and>
          get32 (store st' 3) 0 = 4)"
  by (simp add: eval_defs rw_defs)



lemma release_direct_none:
  "\<forall>i\<in>set xs. disk_sectors (store st (sector ino)) i = 0 \<Longrightarrow> fold (release_direct ino) xs st = st"
  by (induction xs) (simp_all add: release_direct_def)

text \<open>
  C2. The claim fails on the code. On the blank device, open the inode at sector 1,
  write one byte at offset 63488 (the walk takes the sectors 2, 3 and 4 from the free
  map and stores sector 2 in \<open>sectors[124]\<close>, whatever \<open>buff\<close> is), mark the inode removed
  and close it. \<open>inode_close\<close> releases the direct sectors (there is none) and then,
  \<open>sectors[124]\<close> not being 0, stores through the uninitialised pointer \<open>block_data\<close>: the
  run ends there, with the sectors 2, 3 and 4 still marked as used.
\<close>

theorem close_stops_at_indirect_sector:
  "\<forall>buff0. \<exists>st1 st2 st3.
     inode_open 1 (blank_fs 6) = Inr (Some 0, st1) \<and> heap st1 0 = Some (opened 1) \<and>
     inode_write_at buff0 (opened 1) [7] 1 63488 st1 = Inr (1, st2) \<and>
     disk_sectors (store st2 1) DIRECT_BLOCKS = 2 \<and>
     free_map st2 = [True, True, True, True, True, False, False, False] \<and>
     inode_remove (Some 0) st2 = Inr st3 \<and> free_map st3 = free_map st2 \<and>
     inode_close (Some 0) st3 = Inl Uninitialised"
proof
  fix buff0
  show "\<exists>st1 st2 st3.
     inode_open 1 (blank_fs 6) = Inr (Some 0, st1) \<and> heap st1 0 = Some (opened 1) \<and>
     inode_write_at buff0 (opened 1) [7] 1 63488 st1 = Inr (1, st2) \<and>
     disk_sectors (store st2 1) DIRECT_BLOCKS = 2 \<and>
     free_map st2 = [True, True, True, True, True, False, False, False] \<and>
     inode_remove (Some 0) st2 = Inr st3 \<and> free_map st3 = free_map st2 \<and>
     inode_close (Some 0) st3 = Inl Uninitialised"
    by (cases buff0)
       (simp_all add: eval_defs rw_defs inode_open_def malloc_def inode_remove_def inode_close_def
          inode_close_with_def release_blocks_def)
qed

section \<open>Reads and allocation\<close>

lemma byte_to_sector_mapped:
  assumes "mapped st ino pos"
  shows "\<exists>s. byte_to_sector buff0 ino pos st = Inr (s, st) \<and> s \<noteq> NO_SECTOR"
proof (cases "to_size_t (c_div pos (int BLOCK_SECTOR_SIZE)) < DIRECT_BLOCKS")
  case True
  with assms show ?thesis
    by (auto simp: mapped_def present_def byte_to_sector_def byte_to_indirect_sector_def Let_def)
next
  case False
  define root where "root = disk_sectors (store st (sector ino)) DIRECT_BLOCKS"
  define idx1 where "idx1 = to_size_t (pos - int (BLOCK_SECTOR_SIZE * DIRECT_BLOCKS))
                         div (BLOCKS_PER_SECTOR * BLOCK_SECTOR_SIZE)"
  define idx2 where "idx2 = to_size_t (pos - int (BLOCK_SECTOR_SIZE * DIRECT_BLOCKS))
                         div BLOCK_SECTOR_SIZE mod BLOCKS_PER_SECTOR"
  define mid where "mid = get32 (store st root) idx1"
  from assms False have m: "root \<noteq> 0" "root \<noteq> NO_SECTOR" "idx1 < 128" "mid \<noteq> 0" "mid \<noteq> NO_SECTOR"
    "get32 (store st mid) idx2 \<noteq> 0" "get32 (store st mid) idx2 \<noteq> NO_SECTOR"
    by (simp_all add: mapped_def present_def Let_def root_def idx1_def idx2_def mid_def)
  have i2: "idx2 < 128" by (simp add: idx2_def BLOCKS_PER_SECTOR_def less_trans [OF mod_less_divisor])
  have a: "byte_to_indirect_sector buff0 ino (to_size_t (c_div pos (int BLOCK_SECTOR_SIZE))) st
             = (buff0, Some root, root, st)"
    using False m(1) by (simp add: byte_to_indirect_sector_def Let_def root_def)
  have b: "byte_to_double_indirect_sec buff0 (Some root) root idx1 st = Inr (Some mid, mid, st)"
    using m by (simp add: byte_to_double_indirect_sec_def Let_def mid_def)
  have c: "byte_to_double_indirect_sec buff0 (Some mid) mid idx2 st
             = Inr (Some (get32 (store st mid) idx2), get32 (store st mid) idx2, st)"
    using m i2 by (simp add: byte_to_double_indirect_sec_def Let_def)
  show ?thesis
    unfolding byte_to_sector_def Let_def
    apply (simp only: a prod.case idx1_def [symmetric] idx2_def [symmetric])
    apply (simp add: b c m False)
    done
qed

lemma read_loop_mapped:
  assumes "0 \<le> offset" and "offset \<le> inode_length ino st"
    and "\<forall>p. offset \<le> p \<and> p < offset + sz \<and> p \<le> inode_length ino st \<longrightarrow> mapped st ino p"
  shows "\<exists>buffer' bytes_read'.
           read_loop buff0 ino sz offset buffer bytes_read st
             = Inr (buffer', bytes_read', read_end ino st sz offset, st)"
  using assms
proof (induction buff0 ino sz offset buffer bytes_read st rule: read_loop.induct)
  case (1 buff0 ino sz offset buffer bytes_read st)
  show ?case
  proof (cases "sz > 0")
    case False
    then show ?thesis by (subst read_loop.simps) (simp add: read_end_def)
  next
    case True
    with "1.prems" have "mapped st ino offset" by simp
    from byte_to_sector_mapped [OF this, of buff0] obtain s where
      w: "byte_to_sector buff0 ino offset st = Inr (s, st)" and ns: "s \<noteq> NO_SECTOR" by blast
    define chunk where "chunk = (let sector_ofs = c_mod offset (int BLOCK_SECTOR_SIZE);
                    inode_left = inode_length ino st - offset;
                    sector_left = int BLOCK_SECTOR_SIZE - sector_ofs;
                    min_left = (if inode_left < sector_left then inode_left else sector_left)
                in (if sz < min_left then sz else min_left))"
    from c_mod_nonneg [OF "1.prems"(1)] have cm: "0 \<le> c_mod offset 512" "c_mod offset 512 < 512" by simp_all
    show ?thesis
    proof (cases "chunk \<le> 0")
      case True
      then have "offset = inode_length ino st"
        using \<open>sz > 0\<close> cm "1.prems"(2) by (auto simp: chunk_def Let_def BLOCK_SECTOR_SIZE_def split: if_splits)
      then show ?thesis using True \<open>sz > 0\<close> w ns
        by (subst read_loop.simps) (simp add: chunk_def Let_def read_end_def)
    next
      case False
      then have cpos: "0 < chunk" "chunk \<le> sz" "offset + chunk \<le> inode_length ino st"
        using \<open>sz > 0\<close> cm by (auto simp: chunk_def Let_def BLOCK_SECTOR_SIZE_def split: if_splits)
      have rec: "read_loop buff0 ino sz offset buffer bytes_read st =
                 read_loop buff0 ino (sz - chunk) (offset + chunk)
                   (buffer @ take (nat chunk) (drop (nat (c_mod offset (int BLOCK_SECTOR_SIZE))) (store st s)))
                   (bytes_read + chunk) st"
        using \<open>sz > 0\<close> w ns cpos cm
        by (subst read_loop.simps) (simp add: chunk_def Let_def BLOCK_SECTOR_SIZE_def)
      have "\<exists>buffer' bytes_read'.
           read_loop buff0 ino (sz - chunk) (offset + chunk)
                   (buffer @ take (nat chunk) (drop (nat (c_mod offset (int BLOCK_SECTOR_SIZE))) (store st s)))
                   (bytes_read + chunk) st
             = Inr (buffer', bytes_read', read_end ino st (sz - chunk) (offset + chunk), st)"
        using \<open>sz > 0\<close> w ns cpos cm "1.prems"
        by (intro "1.IH")
           (auto simp: chunk_def Let_def BLOCK_SECTOR_SIZE_def)
      moreover have "read_end ino st (sz - chunk) (offset + chunk) = read_end ino st sz offset"
        using cpos \<open>sz > 0\<close> by (auto simp: read_end_def)
      ultimately show ?thesis using rec by simp
    qed
  qed
qed

lemma start_read_ahead_mapped:
  assumes "offset + 511 < inode_length ino st \<longrightarrow> mapped st ino (offset + 511)"
  shows "\<exists>st'. start_read_ahead buff0 ino offset st = Inr st' \<and>
           free_map st' = free_map st \<and> store st' = store st"
proof (cases "offset + int BLOCK_SECTOR_SIZE - 1 < inode_length ino st")
  case False
  then show ?thesis by (simp add: start_read_ahead_def)
next
  case True
  have e: "offset + int BLOCK_SECTOR_SIZE - 1 = offset + 511" by (simp add: BLOCK_SECTOR_SIZE_def)
  have "mapped st ino (offset + int BLOCK_SECTOR_SIZE - 1)"
    unfolding e using True assms unfolding e by blast
  from byte_to_sector_mapped [OF this, of buff0] True show ?thesis
    by (auto simp: start_read_ahead_def read_next_sector_def)
qed

text \<open>
  C3, as the code has it. \<open>inode_read_at\<close> walks with the allocating \<open>byte_to_sector\<close>. A
  read at an offset that is not negative returns with the free map and every sector (so
  the sector pointers of the inode too) unchanged when every byte it walks to is mapped:
  the bytes of the request up to the length of the file (the byte at the length too, when
  the request goes beyond it), and the byte that the read-ahead asks for, 511 bytes
  after the place where the loop stops, when it lies below the length. A read at or
  beyond the length walks to no byte.
\<close>

theorem read_of_mapped_bytes_changes_nothing:
  assumes "0 \<le> offset"
    and "\<forall>p. offset < inode_length ino st \<and> offset \<le> p \<and> p < offset + sz \<and>
             p \<le> inode_length ino st \<longrightarrow> mapped st ino p"
    and "offset < inode_length ino st \<and>
         read_end ino st sz offset + 511 < inode_length ino st \<longrightarrow>
           mapped st ino (read_end ino st sz offset + 511)"
  shows "\<exists>n bs st'. inode_read_at buff0 ino sz offset st = Inr (n, bs, st') \<and>
           free_map st' = free_map st \<and> store st' = store st"
proof (cases "inode_length ino st \<le> offset")
  case True
  then show ?thesis by (simp add: inode_read_at_def)
next
  case False
  then have lt: "offset < inode_length ino st" and le: "offset \<le> inode_length ino st" by simp_all
  have m: "\<forall>p. offset \<le> p \<and> p < offset + sz \<and> p \<le> inode_length ino st \<longrightarrow> mapped st ino p"
    using assms(2) lt by simp
  from read_loop_mapped [OF assms(1) le m, of buff0 "[]" 0] obtain buffer' bytes_read' where
    l: "read_loop buff0 ino sz offset [] 0 st = Inr (buffer', bytes_read', read_end ino st sz offset, st)"
    by blast
  have "read_end ino st sz offset + 511 < inode_length ino st \<longrightarrow>
           mapped st ino (read_end ino st sz offset + 511)"
    using assms(3) lt by simp
  from start_read_ahead_mapped [OF this, of buff0] l False show ?thesis
    by (auto simp: inode_read_at_def)
qed

theorem read_of_mapped_bytes_changes_nothing_witness:
  "\<exists>st n bs st'.
     inode_write_at True (opened 1) [1, 2, 3, 4, 5] 5 0 sparse_file = Inr (5, st) \<and>
     inode_length (opened 1) st = 600 \<and> \<not> mapped st (opened 1) 512 \<and>
     inode_read_at True (opened 1) 100 0 st = Inr (n, bs, st') \<and>
     free_map st' = free_map st \<and> store st' = store st"
proof -
  have "\<exists>st. inode_write_at True (opened 1) [1, 2, 3, 4, 5] 5 0 sparse_file = Inr (5, st) \<and>
          inode_length (opened 1) st = 600 \<and> disk_sectors (store st 1) 0 = 2 \<and>
          disk_sectors (store st 1) 1 = 0"
    by (simp add: sparse_file_def inode_create_def malloc_def eval_defs rw_defs)
  then obtain st where w: "inode_write_at True (opened 1) [1, 2, 3, 4, 5] 5 0 sparse_file = Inr (5, st)"
    and l: "inode_length (opened 1) st = 600" and d: "disk_sectors (store st 1) 0 = 2"
    and h: "disk_sectors (store st 1) 1 = 0" by blast
  have nm: "\<not> mapped st (opened 1) 512"
    using h
    by (simp add: mapped_def present_def c_div_def to_size_t_def BLOCK_SECTOR_SIZE_def
          DIRECT_BLOCKS_def opened_def)
  have m: "\<forall>p. 0 < inode_length (opened 1) st \<and> 0 \<le> p \<and> p < 0 + 100 \<and>
             p \<le> inode_length (opened 1) st \<longrightarrow> mapped st (opened 1) p"
    using l d
    by (auto simp: mapped_def present_def c_div_def to_size_t_def BLOCK_SECTOR_SIZE_def
          DIRECT_BLOCKS_def NO_SECTOR_def opened_def)
  have e: "0 < inode_length (opened 1) st \<and>
         read_end (opened 1) st 100 0 + 511 < inode_length (opened 1) st \<longrightarrow>
           mapped st (opened 1) (read_end (opened 1) st 100 0 + 511)"
    using l by (simp add: read_end_def)
  have "(0::int) \<le> 0" by simp
  from read_of_mapped_bytes_changes_nothing [OF this m e, of True] w l nm show ?thesis by blast
qed

text \<open>
  C3, as the claim states it, fails: reading the five bytes of a file created with
  length 5 and no sector allocated returns five zero bytes, takes sector 2 from the
  free map and stores it in \<open>sectors[0]\<close>.
\<close>

theorem read_of_hole_allocates:
  "\<not> isl (inode_read_at True (opened 1) 5 0 hole_file) \<and>
   fst (projr (inode_read_at True (opened 1) 5 0 hole_file)) = 5 \<and>
   fst (snd (projr (inode_read_at True (opened 1) 5 0 hole_file))) = [0, 0, 0, 0, 0] \<and>
   free_map hole_file = [True, True, False, False, False, False, False, False] \<and>
   free_map (snd (snd (projr (inode_read_at True (opened 1) 5 0 hole_file))))
     = [True, True, True, False, False, False, False, False] \<and>
   disk_sectors (store hole_file 1) 0 = 0 \<and>
   disk_sectors (store (snd (snd (projr (inode_read_at True (opened 1) 5 0 hole_file)))) 1) 0 = 2"
  by (simp add: hole_file_def inode_create_def malloc_def eval_defs rw_defs)

section \<open>Writing and reading back\<close>

lemma slot_ptr_as_word:
  "parent_present st ino sl \<Longrightarrow> slot_ptr st ino sl = get32 (store st (slot_block st ino sl)) (slot_word sl)"
  by (cases sl) (simp_all add: disk_sectors_def root_ptr_def mid_ptr_def)

lemma slot_word_bound: "valid_slot sl \<Longrightarrow> 4 * slot_word sl + 4 \<le> 512"
  by (cases sl) simp_all

lemma store_link:
  "store (link s par w n st) x =
     (if x = s then zero_block else if x = par then put32 (store st par) w s else store st x)"
  by (simp add: link_def write_block_def)

lemma free_map_link: "free_map (link s par w n st) = (free_map st)[n := True]"
  by (simp add: link_def write_block_def)

lemma fresh_unat:
  "inode_wf st ino \<Longrightarrow> n < length (free_map st) \<Longrightarrow> unat (of_nat n :: sector) = n"
  by (simp add: inode_wf_def unsigned_of_nat take_bit_nat_eq_self)

lemma fresh_unused:
  "inode_wf st ino \<Longrightarrow> n < length (free_map st) \<Longrightarrow> \<not> free_map st ! n \<Longrightarrow>
     \<not> sector_used st (of_nat n)"
  by (simp add: sector_used_def fresh_unat)

lemma wf_len: "inode_wf st ino \<Longrightarrow> length (store st x) = 512"
  by (simp add: inode_wf_def)

lemma wf_ptr_used:
  "inode_wf st ino \<Longrightarrow> valid_slot sl \<Longrightarrow> slot_ptr st ino sl \<noteq> 0 \<Longrightarrow>
     sector_used st (slot_ptr st ino sl)"
  by (simp add: inode_wf_def)

lemma wf_ptr_ino:
  "inode_wf st ino \<Longrightarrow> valid_slot sl \<Longrightarrow> slot_ptr st ino sl \<noteq> 0 \<Longrightarrow>
     slot_ptr st ino sl \<noteq> sector ino"
  by (simp add: inode_wf_def)

lemma wf_ptr_inj:
  "inode_wf st ino \<Longrightarrow> valid_slot sl \<Longrightarrow> valid_slot sl' \<Longrightarrow> slot_ptr st ino sl \<noteq> 0 \<Longrightarrow>
     slot_ptr st ino sl = slot_ptr st ino sl' \<Longrightarrow> sl = sl'"
  unfolding inode_wf_def by blast

lemma wf_used_ino: "inode_wf st ino \<Longrightarrow> sector_used st (sector ino)"
  and wf_used_0: "inode_wf st ino \<Longrightarrow> sector_used st 0"
  by (simp_all add: inode_wf_def)

text \<open>Linking a fresh sector into an empty slot sets that slot and no other.\<close>

lemma link_ptr:
  assumes wf: "inode_wf st ino"
    and t: "valid_slot t" "slot_ptr st ino t = 0" "parent_present st ino t"
    and f: "\<not> sector_used st s"
    and sl: "valid_slot sl"
  shows "slot_ptr (link s (slot_block st ino t) (slot_word t) n st) ino sl =
           (if sl = t then s else slot_ptr st ino sl)"
proof -
  define st' where "st' = link s (slot_block st ino t) (slot_word t) n st"
  have s0: "s \<noteq> 0" and si: "sector ino \<noteq> s"
    using wf f wf_used_0 wf_used_ino by auto
  have spR: "root_ptr st ino \<noteq> 0 \<Longrightarrow> root_ptr st ino \<noteq> s"
    using wf_ptr_used [OF wf, of Root] f by auto
  have spM: "\<And>j. j < 128 \<Longrightarrow> mid_ptr st ino j \<noteq> 0 \<Longrightarrow> mid_ptr st ino j \<noteq> s"
    using wf_ptr_used [OF wf, of "Mid j" for j] f by auto
  have piR: "root_ptr st ino \<noteq> 0 \<Longrightarrow> root_ptr st ino \<noteq> sector ino"
    using wf_ptr_ino [OF wf, of Root] by auto
  have piM: "\<And>j. j < 128 \<Longrightarrow> mid_ptr st ino j \<noteq> 0 \<Longrightarrow> mid_ptr st ino j \<noteq> sector ino"
    using wf_ptr_ino [OF wf, of "Mid j" for j] by auto
  have injRM: "\<And>j. j < 128 \<Longrightarrow> root_ptr st ino \<noteq> 0 \<Longrightarrow> root_ptr st ino \<noteq> mid_ptr st ino j"
    using wf_ptr_inj [OF wf, of Root "Mid j" for j] by auto
  have injMM: "\<And>j j'. j < 128 \<Longrightarrow> j' < 128 \<Longrightarrow> mid_ptr st ino j \<noteq> 0 \<Longrightarrow>
      mid_ptr st ino j = mid_ptr st ino j' \<Longrightarrow> j = j'"
    using wf_ptr_inj [OF wf, of "Mid j" "Mid j'" for j j'] by auto
  note len = wf_len [OF wf]
  note g = get32_put32_same get32_put32_other get32_zero_block
  have sto: "\<And>x. store st' x =
      (if x = s then zero_block
       else if x = slot_block st ino t then put32 (store st (slot_block st ino t)) (slot_word t) s
       else store st x)"
    by (simp add: st'_def store_link)
  have blk: "slot_block st ino t = sector ino \<longleftrightarrow> (t = Root \<or> (\<exists>i. t = Direct i))"
    using t piR piM [of j for j] by (cases t) auto
  have ino: "store st' (sector ino) =
      (if t = Root \<or> (\<exists>i. t = Direct i)
       then put32 (store st (sector ino)) (slot_word t) s else store st (sector ino))"
    using si blk by (auto simp add: sto)
  have root: "root_ptr st' ino = (if t = Root then s else root_ptr st ino)"
    using t len by (cases t) (auto simp: root_ptr_def disk_sectors_def ino g)
  have direct: "\<And>i. i < 124 \<Longrightarrow> slot_ptr st' ino (Direct i) = (if t = Direct i then s else slot_ptr st ino (Direct i))"
    using t len by (cases t) (auto simp: disk_sectors_def ino g)
  have mid: "\<And>j. j < 128 \<Longrightarrow> mid_ptr st' ino j = (if t = Mid j then s else mid_ptr st ino j)"
  proof -
    fix j :: nat assume j: "j < 128"
    show "mid_ptr st' ino j = (if t = Mid j then s else mid_ptr st ino j)"
    proof (cases "t = Root")
      case True
      then show ?thesis using t s0
        by (simp add: mid_ptr_def root sto g)
    next
      case False
      show ?thesis
      proof (cases "root_ptr st ino = 0")
        case True
        then show ?thesis using False t by (cases t) (auto simp: mid_ptr_def root)
      next
        case nz: False
        have "store st' (root_ptr st ino) =
            (if (\<exists>k. t = Mid k) then put32 (store st (root_ptr st ino)) (slot_word t) s
             else store st (root_ptr st ino))"
          using spR [OF nz] piR [OF nz] injRM [OF _ nz] t False
          by (cases t) (auto simp: sto)
        then show ?thesis using False nz t j len
          by (cases t) (auto simp: mid_ptr_def root g)
      qed
    qed
  qed
  have leaf: "\<And>j m. j < 128 \<Longrightarrow> m < 125 \<Longrightarrow>
      slot_ptr st' ino (Leaf j m) = (if t = Leaf j m then s else slot_ptr st ino (Leaf j m))"
  proof -
    fix j m :: nat assume j: "j < 128" and m: "m < 125"
    show "slot_ptr st' ino (Leaf j m) = (if t = Leaf j m then s else slot_ptr st ino (Leaf j m))"
    proof (cases "t = Mid j")
      case True
      then show ?thesis using t s0 j
        by (simp add: mid sto g)
    next
      case False
      show ?thesis
      proof (cases "mid_ptr st ino j = 0")
        case True
        then show ?thesis using False t j by (cases t) (auto simp: mid)
      next
        case nz: False
        have "store st' (mid_ptr st ino j) =
            (if (\<exists>k. t = Leaf j k) then put32 (store st (mid_ptr st ino j)) (slot_word t) s
             else store st (mid_ptr st ino j))"
          using spM [OF j nz] piM [OF j nz] injRM [OF j] injMM [OF j _ nz] t False
          by (cases t) (auto simp: sto)
        then show ?thesis using False nz t j m len
          by (cases t) (auto simp: mid g)
      qed
    qed
  qed
  show ?thesis
    using sl root direct mid leaf unfolding st'_def [symmetric] by (cases sl) auto
qed

lemma first_free_Some: "first_free fm = Some n \<Longrightarrow> n < length fm \<and> \<not> fm ! n"
  by (induction fm arbitrary: n) (auto split: if_splits)

lemma sector_used_link:
  assumes "inode_wf st ino" "n < length (free_map st)"
  shows "sector_used (link (of_nat n) par w n st) x \<longleftrightarrow> sector_used st x \<or> x = of_nat n"
proof -
  have u: "unat (of_nat n :: sector) = n" using assms by (rule fresh_unat)
  have "unat x = n \<longleftrightarrow> x = of_nat n" using u by auto
  then show ?thesis using assms(2)
    by (auto simp: sector_used_def free_map_link nth_list_update)
qed

lemma slot_block_cases:
  assumes wf: "inode_wf st ino" and t: "valid_slot t" "parent_present st ino t"
  shows "slot_block st ino t = sector ino \<and> 2 \<le> slot_word t \<or>
         (\<exists>p. valid_slot p \<and> (p = Root \<or> (\<exists>j. p = Mid j)) \<and> slot_ptr st ino p \<noteq> 0 \<and>
              slot_block st ino t = slot_ptr st ino p)"
proof (cases t)
  case (Mid j)
  then show ?thesis using t by (intro disjI2 exI [of _ Root]) simp
next
  case (Leaf j m)
  then show ?thesis using t by (intro disjI2 exI [of _ "Mid j"]) simp
qed simp_all

lemma link_wf:
  assumes wf: "inode_wf st ino"
    and t: "valid_slot t" "slot_ptr st ino t = 0" "parent_present st ino t"
    and n: "n < length (free_map st)" "\<not> free_map st ! n"
  shows "inode_wf (link (of_nat n) (slot_block st ino t) (slot_word t) n st) ino"
proof -
  define s :: sector where "s = of_nat n"
  define st' where "st' = link s (slot_block st ino t) (slot_word t) n st"
  have f: "\<not> sector_used st s"
    unfolding s_def using wf n by (rule fresh_unused)
  have p: "\<And>sl. valid_slot sl \<Longrightarrow> slot_ptr st' ino sl = (if sl = t then s else slot_ptr st ino sl)"
    unfolding st'_def using wf t f by (rule link_ptr)
  have u: "\<And>x. sector_used st' x \<longleftrightarrow> sector_used st x \<or> x = s"
    unfolding st'_def s_def using wf n(1) by (rule sector_used_link)
  have si: "s \<noteq> sector ino" using f wf_used_ino [OF wf] by auto
  have l: "\<And>x. length (store st' x) = 512"
    using wf_len [OF wf] slot_word_bound [OF t(1)]
    by (simp add: st'_def store_link length_zero_block length_put32)
  have a: "length (free_map st') < 2 ^ 32"
    using wf by (simp add: st'_def free_map_link inode_wf_def)
  have b: "\<And>sl. valid_slot sl \<Longrightarrow> slot_ptr st' ino sl \<noteq> 0 \<Longrightarrow>
      sector_used st' (slot_ptr st' ino sl) \<and> slot_ptr st' ino sl \<noteq> sector ino"
  proof -
    fix sl assume v: "valid_slot sl" and nz: "slot_ptr st' ino sl \<noteq> 0"
    show "sector_used st' (slot_ptr st' ino sl) \<and> slot_ptr st' ino sl \<noteq> sector ino"
    proof (cases "sl = t")
      case True
      then show ?thesis using v si by (simp add: p u)
    next
      case False
      then have "slot_ptr st' ino sl = slot_ptr st ino sl" "slot_ptr st ino sl \<noteq> 0"
        using v nz by (simp_all add: p)
      then show ?thesis using wf_ptr_used [OF wf v] wf_ptr_ino [OF wf v] by (simp add: u)
    qed
  qed
  have c: "\<And>sl sl'. valid_slot sl \<Longrightarrow> valid_slot sl' \<Longrightarrow> slot_ptr st' ino sl \<noteq> 0 \<Longrightarrow>
      slot_ptr st' ino sl = slot_ptr st' ino sl' \<Longrightarrow> sl = sl'"
  proof -
    fix sl sl' assume v: "valid_slot sl" "valid_slot sl'" and nz: "slot_ptr st' ino sl \<noteq> 0"
      and e: "slot_ptr st' ino sl = slot_ptr st' ino sl'"
    have o: "\<And>x. valid_slot x \<Longrightarrow> x \<noteq> t \<Longrightarrow> slot_ptr st ino x \<noteq> 0 \<Longrightarrow> slot_ptr st ino x \<noteq> s"
      using wf_ptr_used [OF wf] f by auto
    show "sl = sl'"
    proof (cases "sl = t \<or> sl' = t")
      case True
      then show ?thesis using v nz e o [of sl] o [of sl'] by (auto simp: p split: if_splits)
    next
      case False
      then show ?thesis using v nz e wf_ptr_inj [OF wf, of sl sl'] by (simp add: p)
    qed
  qed
  have "inode_wf st' ino"
    unfolding inode_wf_def using l a b c u wf_used_0 [OF wf] wf_used_ino [OF wf] by blast
  then show ?thesis by (simp add: st'_def s_def)
qed

text \<open>What a link leaves alone: the sectors of the data slots, and the length.\<close>

lemma link_data:
  assumes wf: "inode_wf st ino"
    and t: "valid_slot t" "parent_present st ino t"
    and f: "\<not> sector_used st s"
    and d: "valid_slot d" "data_slot d" "slot_ptr st ino d \<noteq> 0"
  shows "store (link s (slot_block st ino t) (slot_word t) n st) (slot_ptr st ino d) =
           store st (slot_ptr st ino d)"
proof -
  have 1: "slot_ptr st ino d \<noteq> s" using wf_ptr_used [OF wf d(1,3)] f by auto
  have 2: "slot_ptr st ino d \<noteq> sector ino" using wf_ptr_ino [OF wf d(1,3)] .
  have 3: "\<And>p. valid_slot p \<Longrightarrow> p = Root \<or> (\<exists>j. p = Mid j) \<Longrightarrow> slot_ptr st ino p \<noteq> 0 \<Longrightarrow>
      slot_ptr st ino d \<noteq> slot_ptr st ino p"
  proof
    fix p assume p: "valid_slot p" "p = Root \<or> (\<exists>j. p = Mid j)"
      and e: "slot_ptr st ino d = slot_ptr st ino p"
    have "d = p" using wf d(1) p(1) d(3) e by (rule wf_ptr_inj)
    then show False using d(2) p(2) by auto
  qed
  have "slot_ptr st ino d \<noteq> slot_block st ino t"
    using slot_block_cases [OF wf t] 2 3 by metis
  then show ?thesis using 1 by (simp add: store_link)
qed

lemma link_length:
  assumes wf: "inode_wf st ino"
    and t: "valid_slot t" "parent_present st ino t"
    and f: "\<not> sector_used st s"
  shows "inode_length ino (link s (slot_block st ino t) (slot_word t) n st) = inode_length ino st"
proof -
  have 1: "sector ino \<noteq> s" using wf_used_ino [OF wf] f by auto
  from slot_block_cases [OF wf t] show ?thesis
  proof
    assume "slot_block st ino t = sector ino \<and> 2 \<le> slot_word t"
    then show ?thesis using 1 wf_len [OF wf, of "sector ino"] slot_word_bound [OF t(1)]
      by (simp add: inode_length_def disk_length_def store_link get32_put32_other)
  next
    assume "\<exists>p. valid_slot p \<and> (p = Root \<or> (\<exists>j. p = Mid j)) \<and> slot_ptr st ino p \<noteq> 0 \<and>
              slot_block st ino t = slot_ptr st ino p"
    then have "sector ino \<noteq> slot_block st ino t" using wf_ptr_ino [OF wf] by metis
    then show ?thesis using 1 by (simp add: inode_length_def store_link)
  qed
qed

lemma ensure_full:
  "first_free (free_map (ensure st ino t)) \<noteq> None \<Longrightarrow> first_free (free_map st) \<noteq> None"
  by (auto simp: ensure_def split: option.splits)

lemma ensure_wf:
  assumes wf: "inode_wf st ino" and t: "valid_slot t" "parent_present st ino t"
  shows "inode_wf (ensure st ino t) ino"
  using wf t link_wf [OF wf t(1) _ t(2)]
  by (auto simp: ensure_def split: option.splits dest: first_free_Some)

lemma ensure_keeps:
  assumes wf: "inode_wf st ino" and t: "valid_slot t" "parent_present st ino t"
  shows "\<And>sl. valid_slot sl \<Longrightarrow> slot_ptr st ino sl \<noteq> 0 \<Longrightarrow>
           slot_ptr (ensure st ino t) ino sl = slot_ptr st ino sl"
    and "\<And>d. valid_slot d \<Longrightarrow> data_slot d \<Longrightarrow> slot_ptr st ino d \<noteq> 0 \<Longrightarrow>
           store (ensure st ino t) (slot_ptr st ino d) = store st (slot_ptr st ino d)"
    and "inode_length ino (ensure st ino t) = inode_length ino st"
proof -
  have fr: "\<And>n. first_free (free_map st) = Some n \<Longrightarrow> \<not> sector_used st (of_nat n)"
    using fresh_unused [OF wf] by (auto dest: first_free_Some)
  show "\<And>sl. valid_slot sl \<Longrightarrow> slot_ptr st ino sl \<noteq> 0 \<Longrightarrow>
           slot_ptr (ensure st ino t) ino sl = slot_ptr st ino sl"
    using link_ptr [OF wf t(1) _ t(2) fr]
    by (auto simp: ensure_def split: option.splits)
  show "\<And>d. valid_slot d \<Longrightarrow> data_slot d \<Longrightarrow> slot_ptr st ino d \<noteq> 0 \<Longrightarrow>
           store (ensure st ino t) (slot_ptr st ino d) = store st (slot_ptr st ino d)"
    using link_data [OF wf t fr]
    by (auto simp: ensure_def split: option.splits)
  show "inode_length ino (ensure st ino t) = inode_length ino st"
    using link_length [OF wf t fr]
    by (auto simp: ensure_def split: option.splits)
qed

lemma ensure_ptr:
  assumes wf: "inode_wf st ino" and t: "valid_slot t" "parent_present st ino t"
    and nf: "first_free (free_map (ensure st ino t)) \<noteq> None"
  shows "slot_ptr (ensure st ino t) ino t \<noteq> 0"
proof -
  have fr: "\<And>n. first_free (free_map st) = Some n \<Longrightarrow> \<not> sector_used st (of_nat n)"
    using fresh_unused [OF wf] by (auto dest: first_free_Some)
  have nz: "\<And>n. first_free (free_map st) = Some n \<Longrightarrow> (of_nat n :: sector) \<noteq> 0"
    using fr wf_used_0 [OF wf] by auto
  show ?thesis
    using nf nz link_ptr [OF wf t(1) _ t(2) fr t(1)]
    by (auto simp: ensure_def split: option.splits)
qed

lemma wf_no_sector:
  assumes "inode_wf st ino" "valid_slot sl"
  shows "slot_ptr st ino sl \<noteq> NO_SECTOR"
proof (cases "slot_ptr st ino sl = 0")
  case True
  then show ?thesis by (simp add: NO_SECTOR_def)
next
  case False
  then have "sector_used st (slot_ptr st ino sl)" using assms by (simp add: wf_ptr_used)
  then have "unat (slot_ptr st ino sl) < 2 ^ 32 - 1"
    using assms(1) by (simp add: sector_used_def inode_wf_def)
  moreover have "unat (- 1 :: sector) = 2 ^ 32 - 1"
    by (simp add: unsigned_minus_1_eq_mask mask_eq_exp_minus_1)
  ultimately show ?thesis by (auto simp: NO_SECTOR_def)
qed

text \<open>The two functions of the walk, as \<open>ensure\<close>.\<close>

lemma byte_to_indirect_sector_ensure:
  assumes wf: "inode_wf st ino"
    and t: "t = (if idx0 < 124 then Direct idx0 else Root)"
  shows "byte_to_indirect_sector buff ino idx0 st =
           (if slot_ptr (ensure st ino t) ino t = 0 then (False, None, 0, ensure st ino t)
            else (buff, Some (slot_ptr (ensure st ino t) ino t),
                  slot_ptr (ensure st ino t) ino t, ensure st ino t))"
proof -
  have v: "valid_slot t" "parent_present st ino t" using t by auto
  have p: "slot_ptr st ino t =
      disk_sectors (store st (sector ino)) (if idx0 \<ge> DIRECT_BLOCKS then DIRECT_BLOCKS else idx0)"
    using t by (auto simp: DIRECT_BLOCKS_def root_ptr_def)
  have w: "slot_word t = 2 + (if idx0 \<ge> DIRECT_BLOCKS then DIRECT_BLOCKS else idx0)"
    "slot_block st ino t = sector ino"
    using t by (auto simp: DIRECT_BLOCKS_def)
  show ?thesis
  proof (cases "slot_ptr st ino t = 0")
    case False
    then show ?thesis using p
      by (simp add: byte_to_indirect_sector_def Let_def ensure_def)
  next
    case True
    show ?thesis
    proof (cases "first_free (free_map st)")
      case None
      then show ?thesis using True p
        by (simp add: byte_to_indirect_sector_def Let_def ensure_def free_map_allocate_def)
    next
      case (Some n)
      have fr: "\<not> sector_used st (of_nat n)"
        using fresh_unused [OF wf] Some by (auto dest: first_free_Some)
      have nz: "(of_nat n :: sector) \<noteq> 0" using fr wf_used_0 [OF wf] by auto
      have e: "ensure st ino t = link (of_nat n) (sector ino) (slot_word t) n st"
        using True Some w by (simp add: ensure_def)
      have q: "slot_ptr (ensure st ino t) ino t = of_nat n"
        using link_ptr [OF wf v(1) True v(2) fr v(1), of n] e w by simp
      show ?thesis
        unfolding q using nz True p Some
        by (simp add: byte_to_indirect_sector_def Let_def free_map_allocate_def e link_def
              set_disk_sectors_def w write_block_def)
    qed
  qed
qed

lemma byte_to_double_indirect_sec_ensure:
  assumes wf: "inode_wf st ino"
    and t: "t = Mid j \<or> t = Leaf j m" "valid_slot t" "parent_present st ino t"
  shows "byte_to_double_indirect_sec True (Some (slot_block st ino t)) (slot_block st ino t)
            (slot_word t) st =
           Inr (if slot_ptr (ensure st ino t) ino t = 0 then Some (slot_block st ino t)
                else Some (slot_ptr (ensure st ino t) ino t),
                slot_ptr (ensure st ino t) ino t, ensure st ino t)"
proof -
  have i: "\<not> 128 < slot_word t" "slot_word t \<noteq> 128" using t by auto
  have p: "slot_ptr st ino t = get32 (store st (slot_block st ino t)) (slot_word t)"
    using t(3) by (rule slot_ptr_as_word)
  show ?thesis
  proof (cases "slot_ptr st ino t = 0")
    case False
    then show ?thesis using p i
      by (simp add: byte_to_double_indirect_sec_def Let_def ensure_def)
  next
    case True
    show ?thesis
    proof (cases "first_free (free_map st)")
      case None
      then show ?thesis using True p i
        by (simp add: byte_to_double_indirect_sec_def Let_def ensure_def free_map_allocate_def)
    next
      case (Some n)
      have fr: "\<not> sector_used st (of_nat n)"
        using fresh_unused [OF wf] Some by (auto dest: first_free_Some)
      have nz: "(of_nat n :: sector) \<noteq> 0" using fr wf_used_0 [OF wf] by auto
      have e: "ensure st ino t = link (of_nat n) (slot_block st ino t) (slot_word t) n st"
        using True Some by (simp add: ensure_def)
      have q: "slot_ptr (ensure st ino t) ino t = of_nat n"
        using link_ptr [OF wf t(2) True t(3) fr t(2), of n] e by simp
      show ?thesis
        unfolding q using nz True p [symmetric] Some i
        by (simp add: byte_to_double_indirect_sec_def Let_def free_map_allocate_def e link_def
              write_block_def)
    qed
  qed
qed

lemma pos_slot_valid: "0 \<le> pos \<Longrightarrow> pos < 8255488 \<Longrightarrow> valid_slot (pos_slot pos)"
  by (auto simp: pos_slot_def)

lemma pos_slot_data: "data_slot (pos_slot pos)"
  by (simp add: pos_slot_def)

lemma walk_wf:
  assumes wf: "inode_wf st ino" and r: "0 \<le> pos" "pos < 8255488"
    and nf: "first_free (free_map (walk st ino pos)) \<noteq> None"
  shows "inode_wf (walk st ino pos) ino"
    and "slot_ptr (walk st ino pos) ino (pos_slot pos) \<noteq> 0"
    and "\<And>sl. valid_slot sl \<Longrightarrow> slot_ptr st ino sl \<noteq> 0 \<Longrightarrow>
           slot_ptr (walk st ino pos) ino sl = slot_ptr st ino sl"
    and "\<And>d. valid_slot d \<Longrightarrow> data_slot d \<Longrightarrow> slot_ptr st ino d \<noteq> 0 \<Longrightarrow>
           store (walk st ino pos) (slot_ptr st ino d) = store st (slot_ptr st ino d)"
    and "inode_length ino (walk st ino pos) = inode_length ino st"
proof -
  have "inode_wf (walk st ino pos) ino \<and>
        slot_ptr (walk st ino pos) ino (pos_slot pos) \<noteq> 0 \<and>
        (\<forall>sl. valid_slot sl \<longrightarrow> slot_ptr st ino sl \<noteq> 0 \<longrightarrow>
           slot_ptr (walk st ino pos) ino sl = slot_ptr st ino sl) \<and>
        (\<forall>d. valid_slot d \<longrightarrow> data_slot d \<longrightarrow> slot_ptr st ino d \<noteq> 0 \<longrightarrow>
           store (walk st ino pos) (slot_ptr st ino d) = store st (slot_ptr st ino d)) \<and>
        inode_length ino (walk st ino pos) = inode_length ino st"
  proof (cases "pos < 63488")
    case True
    define t where "t = Direct (nat (pos div 512))"
    have v: "valid_slot t" "parent_present st ino t" using True r by (auto simp: t_def)
    have w: "walk st ino pos = ensure st ino t" "pos_slot pos = t"
      using True by (simp_all add: walk_def pos_slot_def t_def)
    show ?thesis
      unfolding w using ensure_wf [OF wf v] ensure_keeps [OF wf v] ensure_ptr [OF wf v] nf w
      by simp
  next
    case False
    define j where "j = nat (pos - 63488) div 64000"
    define m where "m = nat (pos - 63488) div 512 mod 125"
    define a where "a = ensure st ino Root"
    define b where "b = ensure a ino (Mid j)"
    define c where "c = ensure b ino (Leaf j m)"
    have w: "walk st ino pos = c" "pos_slot pos = Leaf j m"
      using False by (simp_all add: walk_def pos_slot_def j_def m_def a_def b_def c_def)
    have j: "j < 128" and m: "m < 125" using r False by (auto simp: j_def m_def)
    have nc: "first_free (free_map c) \<noteq> None" using nf w by simp
    then have nb: "first_free (free_map b) \<noteq> None" unfolding c_def by (rule ensure_full)
    then have na: "first_free (free_map a) \<noteq> None" unfolding b_def by (rule ensure_full)
    have va: "valid_slot Root" "parent_present st ino Root" by simp_all
    have wa: "inode_wf a ino" unfolding a_def using wf va by (rule ensure_wf)
    have pa: "slot_ptr a ino Root \<noteq> 0" unfolding a_def using wf va na [unfolded a_def] by (rule ensure_ptr)
    have vb: "valid_slot (Mid j)" "parent_present a ino (Mid j)" using j pa by simp_all
    have wb: "inode_wf b ino" unfolding b_def using wa vb by (rule ensure_wf)
    have pb: "slot_ptr b ino (Mid j) \<noteq> 0" unfolding b_def using wa vb nb [unfolded b_def] by (rule ensure_ptr)
    have vc: "valid_slot (Leaf j m)" "parent_present b ino (Leaf j m)" using j m pb by simp_all
    have wc: "inode_wf c ino" unfolding c_def using wb vc by (rule ensure_wf)
    have pc: "slot_ptr c ino (Leaf j m) \<noteq> 0" unfolding c_def using wb vc nc [unfolded c_def] by (rule ensure_ptr)
    note ka = ensure_keeps [OF wf va, folded a_def]
    note kb = ensure_keeps [OF wa vb, folded b_def]
    note kc = ensure_keeps [OF wb vc, folded c_def]
    have k1: "\<And>sl. valid_slot sl \<Longrightarrow> slot_ptr st ino sl \<noteq> 0 \<Longrightarrow> slot_ptr c ino sl = slot_ptr st ino sl"
      using ka(1) kb(1) kc(1) by simp
    have k2: "\<And>d. valid_slot d \<Longrightarrow> data_slot d \<Longrightarrow> slot_ptr st ino d \<noteq> 0 \<Longrightarrow>
           store c (slot_ptr st ino d) = store st (slot_ptr st ino d)"
    proof -
      fix d assume d: "valid_slot d" "data_slot d" "slot_ptr st ino d \<noteq> 0"
      have 1: "slot_ptr a ino d = slot_ptr st ino d" using ka(1) d by simp
      have 2: "slot_ptr b ino d = slot_ptr st ino d" using kb(1) d 1 by simp
      show "store c (slot_ptr st ino d) = store st (slot_ptr st ino d)"
        using ka(2) [OF d] kb(2) [OF d(1,2)] kc(2) [OF d(1,2)] 1 2 d(3) by simp
    qed
    have k3: "inode_length ino c = inode_length ino st" using ka(3) kb(3) kc(3) by simp
    show ?thesis unfolding w using wc pc k1 k2 k3 by simp
  qed
  then show "inode_wf (walk st ino pos) ino"
    and "slot_ptr (walk st ino pos) ino (pos_slot pos) \<noteq> 0"
    and "\<And>sl. valid_slot sl \<Longrightarrow> slot_ptr st ino sl \<noteq> 0 \<Longrightarrow>
           slot_ptr (walk st ino pos) ino sl = slot_ptr st ino sl"
    and "\<And>d. valid_slot d \<Longrightarrow> data_slot d \<Longrightarrow> slot_ptr st ino d \<noteq> 0 \<Longrightarrow>
           store (walk st ino pos) (slot_ptr st ino d) = store st (slot_ptr st ino d)"
    and "inode_length ino (walk st ino pos) = inode_length ino st"
    by simp_all
qed

lemma byte_to_sector_walk:
  assumes wf: "inode_wf st ino" and r: "0 \<le> pos" "pos < 8255488"
    and bf: "buff0 \<or> pos < 63488"
    and res: "byte_to_sector buff0 ino pos st = Inr (s, st1)"
    and nf: "first_free (free_map st1) \<noteq> None"
  shows "st1 = walk st ino pos \<and> s = slot_ptr st1 ino (pos_slot pos)"
proof (cases "pos < 63488")
  case True
  define t where "t = Direct (nat (pos div 512))"
  have i: "nat (pos div 512) < 124" using True r by auto
  have w: "walk st ino pos = ensure st ino t" "pos_slot pos = t"
    using True by (simp_all add: walk_def pos_slot_def t_def)
  have t: "t = (if nat (pos div 512) < 124 then Direct (nat (pos div 512)) else Root)"
    using i by (simp add: t_def)
  show ?thesis
    using res i unfolding w byte_to_sector_def Let_def walk_idx(1) [OF r]
      byte_to_indirect_sector_ensure [OF wf t]
    by (auto simp: DIRECT_BLOCKS_def split: if_splits)
next
  case False
  define j where "j = nat (pos - 63488) div 64000"
  define m where "m = nat (pos - 63488) div 512 mod 125"
  define a where "a = ensure st ino Root"
  define b where "b = ensure a ino (Mid j)"
  define c where "c = ensure b ino (Leaf j m)"
  have w: "walk st ino pos = c" "pos_slot pos = Leaf j m"
    using False by (simp_all add: walk_def pos_slot_def j_def m_def a_def b_def c_def)
  have j: "j < 128" and m: "m < 125" using r False by (auto simp: j_def m_def)
  have i: "\<not> nat (pos div 512) < 124" using False r by auto
  have t: "Root = (if nat (pos div 512) < 124 then Direct (nat (pos div 512)) else Root)"
    using i by simp
  have bf: "buff0" using bf False by simp
  have i1: "to_size_t (pos - int (BLOCK_SECTOR_SIZE * DIRECT_BLOCKS)) div (BLOCKS_PER_SECTOR * BLOCK_SECTOR_SIZE) = j"
    and i2: "to_size_t (pos - int (BLOCK_SECTOR_SIZE * DIRECT_BLOCKS)) div BLOCK_SECTOR_SIZE mod BLOCKS_PER_SECTOR = m"
    using walk_idx(3) [OF r] False
    by (simp_all add: j_def m_def BLOCKS_PER_SECTOR_def BLOCK_SECTOR_SIZE_def)
  have va: "valid_slot Root" "parent_present st ino Root" by simp_all
  have wa: "inode_wf a ino" unfolding a_def using wf va by (rule ensure_wf)
  note l1 = byte_to_indirect_sector_ensure [OF wf t, of buff0, folded a_def]
  show ?thesis
  proof (cases "slot_ptr a ino Root = 0")
    case True
    then show ?thesis
      using res i unfolding byte_to_sector_def Let_def walk_idx(1) [OF r] l1
      by (simp add: DIRECT_BLOCKS_def NO_SECTOR_def byte_to_double_indirect_sec_def)
  next
    case pa: False
    have vb: "valid_slot (Mid j)" "parent_present a ino (Mid j)" using j pa by simp_all
    have wb: "inode_wf b ino" unfolding b_def using wa vb by (rule ensure_wf)
    have ra: "slot_block a ino (Mid j) = slot_ptr a ino Root" by simp
    note l2 = byte_to_double_indirect_sec_ensure [OF wa _ vb, of j 0, simplified, folded b_def]
    have na: "slot_ptr a ino Root \<noteq> NO_SECTOR" using wa by (rule wf_no_sector) simp
    have nb: "slot_ptr b ino (Mid j) \<noteq> NO_SECTOR" using wb by (rule wf_no_sector) (simp add: j)
    have step: "byte_to_sector buff0 ino pos st =
        (case byte_to_double_indirect_sec True
                (if slot_ptr b ino (Mid j) = 0 then Some (slot_ptr a ino Root)
                 else Some (slot_ptr b ino (Mid j))) (slot_ptr b ino (Mid j)) m b of
           Inl e \<Rightarrow> Inl e | Inr (bd3, sec3, st3) \<Rightarrow> Inr (sec3, st3))"
      using i pa na nb bf unfolding byte_to_sector_def Let_def walk_idx(1) [OF r] l1 i1 i2
      by (simp add: DIRECT_BLOCKS_def l2)
    show ?thesis
    proof (cases "slot_ptr b ino (Mid j) = 0")
      case True
      have "first_free (free_map b) = None"
        using ensure_ptr [OF wa vb] True unfolding b_def by (cases "first_free (free_map (ensure a ino (Mid j)))") auto
      moreover obtain x y where "byte_to_double_indirect_sec True (Some (slot_ptr a ino Root)) 0 m b = Inr (x, y, st1)"
        using res True unfolding step by (auto split: sum.splits)
      ultimately have "st1 = b" by (rule byte_to_double_indirect_sec_full)
      then show ?thesis using nf \<open>first_free (free_map b) = None\<close> by simp
    next
      case pb: False
      have vc: "valid_slot (Leaf j m)" "parent_present b ino (Leaf j m)" using j m pb by simp_all
      have rb: "slot_block b ino (Leaf j m) = slot_ptr b ino (Mid j)" by simp
      note l3 = byte_to_double_indirect_sec_ensure [OF wb _ vc, of j m, simplified, folded c_def]
      show ?thesis using res pb unfolding step w by (auto simp add: l3)
    qed
  qed
qed

text \<open>A write that leaves the free map, the pointer words of the inode sector and the
  pointer sectors alone leaves every slot alone.\<close>

lemma ptr_frame:
  assumes fm: "free_map st' = free_map st"
    and i: "\<And>k. 2 \<le> k \<Longrightarrow> get32 (store st' (sector ino)) k = get32 (store st (sector ino)) k"
    and p: "\<And>p. valid_slot p \<Longrightarrow> \<not> data_slot p \<Longrightarrow> slot_ptr st ino p \<noteq> 0 \<Longrightarrow>
              store st' (slot_ptr st ino p) = store st (slot_ptr st ino p)"
    and sl: "valid_slot sl"
  shows "slot_ptr st' ino sl = slot_ptr st ino sl"
proof -
  have r: "root_ptr st' ino = root_ptr st ino"
    by (simp add: root_ptr_def disk_sectors_def i)
  have m: "\<And>j. j < 128 \<Longrightarrow> mid_ptr st' ino j = mid_ptr st ino j"
    using p [of Root] by (simp add: mid_ptr_def r)
  show ?thesis
    using sl r m i p [of "Mid j" for j] by (cases sl) (simp_all add: disk_sectors_def)
qed

lemma wf_frame:
  assumes wf: "inode_wf st ino"
    and fm: "free_map st' = free_map st"
    and l: "\<And>x. length (store st' x) = 512"
    and i: "\<And>k. 2 \<le> k \<Longrightarrow> get32 (store st' (sector ino)) k = get32 (store st (sector ino)) k"
    and p: "\<And>p. valid_slot p \<Longrightarrow> \<not> data_slot p \<Longrightarrow> slot_ptr st ino p \<noteq> 0 \<Longrightarrow>
              store st' (slot_ptr st ino p) = store st (slot_ptr st ino p)"
  shows "inode_wf st' ino"
proof -
  have e: "\<And>sl. valid_slot sl \<Longrightarrow> slot_ptr st' ino sl = slot_ptr st ino sl"
    using fm i p by (rule ptr_frame)
  have u: "\<And>x. sector_used st' x = sector_used st x" by (simp add: sector_used_def fm)
  have c: "\<And>sl sl'. valid_slot sl \<Longrightarrow> valid_slot sl' \<Longrightarrow> slot_ptr st' ino sl \<noteq> 0 \<Longrightarrow>
      slot_ptr st' ino sl = slot_ptr st' ino sl' \<Longrightarrow> sl = sl'"
    using wf_ptr_inj [OF wf] by (simp add: e)
  have b: "\<And>sl. valid_slot sl \<Longrightarrow> slot_ptr st' ino sl \<noteq> 0 \<Longrightarrow>
      sector_used st' (slot_ptr st' ino sl) \<and> slot_ptr st' ino sl \<noteq> sector ino"
    using wf_ptr_used [OF wf] wf_ptr_ino [OF wf] by (simp add: e u)
  have a: "length (free_map st') < 2 ^ 32" "sector_used st' 0" "sector_used st' (sector ino)"
    using wf by (simp_all add: inode_wf_def u fm)
  show ?thesis unfolding inode_wf_def using l a b c by blast
qed

text \<open>Writing a data sector.\<close>

lemma data_write:
  assumes wf: "inode_wf st ino"
    and d: "valid_slot d" "data_slot d" "slot_ptr st ino d \<noteq> 0"
    and l: "length blk = 512"
  shows "inode_wf (write_block (slot_ptr st ino d) blk st) ino"
    and "\<And>sl. valid_slot sl \<Longrightarrow>
           slot_ptr (write_block (slot_ptr st ino d) blk st) ino sl = slot_ptr st ino sl"
    and "inode_length ino (write_block (slot_ptr st ino d) blk st) = inode_length ino st"
proof -
  define st' where "st' = write_block (slot_ptr st ino d) blk st"
  have n: "slot_ptr st ino d \<noteq> sector ino" using wf d(1,3) by (rule wf_ptr_ino)
  have fm: "free_map st' = free_map st" by (simp add: st'_def write_block_def)
  have len: "\<And>x. length (store st' x) = 512"
    using wf_len [OF wf] l by (simp add: st'_def write_block_def)
  have i: "\<And>k. 2 \<le> k \<Longrightarrow> get32 (store st' (sector ino)) k = get32 (store st (sector ino)) k"
    using n by (simp add: st'_def write_block_def)
  have p: "\<And>p. valid_slot p \<Longrightarrow> \<not> data_slot p \<Longrightarrow> slot_ptr st ino p \<noteq> 0 \<Longrightarrow>
              store st' (slot_ptr st ino p) = store st (slot_ptr st ino p)"
  proof -
    fix p assume p: "valid_slot p" "\<not> data_slot p" "slot_ptr st ino p \<noteq> 0"
    have "slot_ptr st ino p \<noteq> slot_ptr st ino d"
    proof
      assume "slot_ptr st ino p = slot_ptr st ino d"
      with wf p(1) d(1) p(3) have "p = d" by (rule wf_ptr_inj)
      then show False using p(2) d(2) by simp
    qed
    then show "store st' (slot_ptr st ino p) = store st (slot_ptr st ino p)"
      by (simp add: st'_def write_block_def)
  qed
  show "inode_wf (write_block (slot_ptr st ino d) blk st) ino"
    using wf fm len i p unfolding st'_def [symmetric] by (rule wf_frame)
  show "\<And>sl. valid_slot sl \<Longrightarrow>
           slot_ptr (write_block (slot_ptr st ino d) blk st) ino sl = slot_ptr st ino sl"
    using fm i p unfolding st'_def [symmetric] by (rule ptr_frame)
  show "inode_length ino (write_block (slot_ptr st ino d) blk st) = inode_length ino st"
    using n by (simp add: inode_length_def write_block_def)
qed

text \<open>Writing the length.\<close>

lemma sint_length: "0 \<le> n \<Longrightarrow> n < 2 ^ 31 \<Longrightarrow> sint (word_of_int n :: 32 word) = n"
  by (simp add: signed_take_bit_int_eq_self sint_sbintrunc')

lemma length_write:
  assumes wf: "inode_wf st ino" and n: "0 \<le> n" "n < 2 ^ 31"
  shows "inode_wf (write_block (sector ino) (set_disk_length (store st (sector ino)) n) st) ino"
    and "\<And>sl. valid_slot sl \<Longrightarrow>
           slot_ptr (write_block (sector ino) (set_disk_length (store st (sector ino)) n) st) ino sl
             = slot_ptr st ino sl"
    and "inode_length ino (write_block (sector ino) (set_disk_length (store st (sector ino)) n) st) = n"
    and "\<And>x. x \<noteq> sector ino \<Longrightarrow>
           store (write_block (sector ino) (set_disk_length (store st (sector ino)) n) st) x = store st x"
proof -
  define st' where "st' = write_block (sector ino) (set_disk_length (store st (sector ino)) n) st"
  note len0 = wf_len [OF wf]
  have fm: "free_map st' = free_map st" by (simp add: st'_def write_block_def)
  have len: "\<And>x. length (store st' x) = 512"
    using len0 by (simp add: st'_def write_block_def set_disk_length_def length_put32)
  have i: "\<And>k. 2 \<le> k \<Longrightarrow> get32 (store st' (sector ino)) k = get32 (store st (sector ino)) k"
    using len0 by (simp add: st'_def write_block_def set_disk_length_def get32_put32_other)
  have p: "\<And>p. valid_slot p \<Longrightarrow> \<not> data_slot p \<Longrightarrow> slot_ptr st ino p \<noteq> 0 \<Longrightarrow>
              store st' (slot_ptr st ino p) = store st (slot_ptr st ino p)"
    using wf_ptr_ino [OF wf] by (simp add: st'_def write_block_def)
  show "inode_wf (write_block (sector ino) (set_disk_length (store st (sector ino)) n) st) ino"
    using wf fm len i p unfolding st'_def [symmetric] by (rule wf_frame)
  show "\<And>sl. valid_slot sl \<Longrightarrow>
           slot_ptr (write_block (sector ino) (set_disk_length (store st (sector ino)) n) st) ino sl
             = slot_ptr st ino sl"
    using fm i p unfolding st'_def [symmetric] by (rule ptr_frame)
  show "inode_length ino (write_block (sector ino) (set_disk_length (store st (sector ino)) n) st) = n"
    using len0 n
    by (simp add: inode_length_def disk_length_def write_block_def set_disk_length_def
          get32_put32_same sint_length)
  show "\<And>x. x \<noteq> sector ino \<Longrightarrow>
           store (write_block (sector ino) (set_disk_length (store st (sector ino)) n) st) x = store st x"
    by (simp add: write_block_def)
qed

text \<open>Bytes and slots.\<close>

lemma pos_slot_eq:
  assumes "0 \<le> p" "0 \<le> q"
  shows "pos_slot p = pos_slot q \<longleftrightarrow> p div 512 = q div 512"
proof -
  have a: "\<And>x::nat. (x div 64000, x div 512 mod 125) = ((x div 512) div 125, (x div 512) mod 125)"
    by (simp add: div_mult2_eq)
  have b: "\<And>x y::nat. (x div 125 = y div 125 \<and> x mod 125 = y mod 125) \<longleftrightarrow> x = y"
    by (metis div_mult_mod_eq)
  have c: "\<And>x y::nat. (x div 64000 = y div 64000 \<and> x div 512 mod 125 = y div 512 mod 125)
      \<longleftrightarrow> x div 512 = y div 512"
    using a b by (metis prod.inject)
  have d: "\<And>x. 63488 \<le> x \<Longrightarrow> nat (x - 63488) div 512 + 124 = nat (x div 512)"
    by (auto simp: nat_div_distrib nat_diff_distrib nat_add_distrib)
  have n: "nat (p div 512) = nat (q div 512) \<longleftrightarrow> p div 512 = q div 512"
  proof -
    have "0 \<le> p div 512" "0 \<le> q div 512" using assms by simp_all
    then show ?thesis by linarith
  qed
  have e: "\<And>x::int. x div 512 < 124 \<longleftrightarrow> x < 63488" by auto
  show ?thesis
  proof (cases "p < 63488"; cases "q < 63488")
    assume "p < 63488" "q < 63488"
    then show ?thesis using assms by (auto simp: pos_slot_def)
  next
    assume "p < 63488" "\<not> q < 63488"
    then show ?thesis using e [of p] e [of q] by (auto simp: pos_slot_def)
  next
    assume "\<not> p < 63488" "q < 63488"
    then show ?thesis using e [of p] e [of q] by (auto simp: pos_slot_def)
  next
    assume pq: "\<not> p < 63488" "\<not> q < 63488"
    then have "nat (p - 63488) div 512 = nat (q - 63488) div 512 \<longleftrightarrow> p div 512 = q div 512"
      using d [of p] d [of q] n by auto
    then show ?thesis using pq c by (simp add: pos_slot_def)
  qed
qed

text \<open>A byte whose data sector is there: the walk returns it and changes nothing.\<close>

lemma byte_to_sector_present:
  assumes wf: "inode_wf st ino" and r: "0 \<le> pos" "pos < 8255488"
    and p: "slot_ptr st ino (pos_slot pos) \<noteq> 0"
  shows "byte_to_sector buff0 ino pos st = Inr (slot_ptr st ino (pos_slot pos), st)"
proof (cases "pos < 63488")
  case True
  then have i: "nat (pos div 512) < 124" using r by auto
  show ?thesis
    using p i True unfolding byte_to_sector_def Let_def walk_idx(1) [OF r]
    by (simp add: byte_to_indirect_sector_def Let_def DIRECT_BLOCKS_def pos_slot_def)
next
  case False
  define j where "j = nat (pos - 63488) div 64000"
  define m where "m = nat (pos - 63488) div 512 mod 125"
  have w: "pos_slot pos = Leaf j m"
    using False by (simp_all add: pos_slot_def j_def m_def)
  have j: "j < 128" and m: "m < 125" using r False by (auto simp: j_def m_def)
  have i: "\<not> nat (pos div 512) < 124" using False r by auto
  have i1: "to_size_t (pos - int (BLOCK_SECTOR_SIZE * DIRECT_BLOCKS)) div (BLOCKS_PER_SECTOR * BLOCK_SECTOR_SIZE) = j"
    and i2: "to_size_t (pos - int (BLOCK_SECTOR_SIZE * DIRECT_BLOCKS)) div BLOCK_SECTOR_SIZE mod BLOCKS_PER_SECTOR = m"
    using walk_idx(3) [OF r] False
    by (simp_all add: j_def m_def BLOCKS_PER_SECTOR_def BLOCK_SECTOR_SIZE_def)
  have q: "root_ptr st ino \<noteq> 0" "mid_ptr st ino j \<noteq> 0" "get32 (store st (mid_ptr st ino j)) m \<noteq> 0"
    using p unfolding w by (auto simp: mid_ptr_def split: if_splits)
  have a: "byte_to_indirect_sector buff0 ino (nat (pos div 512)) st
             = (buff0, Some (root_ptr st ino), root_ptr st ino, st)"
    using i q(1) by (simp add: byte_to_indirect_sector_def Let_def root_ptr_def DIRECT_BLOCKS_def)
  have b: "byte_to_double_indirect_sec buff0 (Some (root_ptr st ino)) (root_ptr st ino) j st
             = Inr (Some (mid_ptr st ino j), mid_ptr st ino j, st)"
    using q j by (simp add: byte_to_double_indirect_sec_def Let_def mid_ptr_def)
  have c: "byte_to_double_indirect_sec buff0 (Some (mid_ptr st ino j)) (mid_ptr st ino j) m st
             = Inr (Some (get32 (store st (mid_ptr st ino j)) m), get32 (store st (mid_ptr st ino j)) m, st)"
    using q m by (simp add: byte_to_double_indirect_sec_def Let_def)
  have n: "root_ptr st ino \<noteq> NO_SECTOR" "mid_ptr st ino j \<noteq> NO_SECTOR"
    using wf_no_sector [OF wf, of Root] wf_no_sector [OF wf, of "Mid j"] j by simp_all
  show ?thesis
    using i q n unfolding byte_to_sector_def Let_def walk_idx(1) [OF r] a i1 i2 w
    by (simp add: b c DIRECT_BLOCKS_def)
qed

lemma copy_in_nth_in:
  "ofs + length c \<le> length b \<Longrightarrow> i < length c \<Longrightarrow> copy_in b ofs c ! (ofs + i) = c ! i"
  by (simp add: copy_in_def nth_append)

lemma copy_in_nth_before:
  "ofs \<le> length b \<Longrightarrow> i < ofs \<Longrightarrow> copy_in b ofs c ! i = b ! i"
  by (simp add: copy_in_def nth_append)

lemma same_sector:
  fixes offset p :: int
  assumes "0 \<le> offset" "offset \<le> p" "p < offset + (512 - offset mod 512)"
  shows "p div 512 = offset div 512" and "p mod 512 = offset mod 512 + (p - offset)"
proof -
  have e: "p = 512 * (offset div 512) + (offset mod 512 + (p - offset))" by simp
  have r: "0 \<le> offset mod 512 + (p - offset)" "offset mod 512 + (p - offset) < 512"
    using assms by simp_all
  show "p div 512 = offset div 512" using e r by (rule int_div_pos_eq)
  show "p mod 512 = offset mod 512 + (p - offset)" using e r by (rule int_mod_pos_eq)
qed

lemma same_sector_before:
  fixes offset p :: int
  assumes "p < offset" "p div 512 = offset div 512"
  shows "p mod 512 < offset mod 512"
proof -
  have "p = 512 * (p div 512) + p mod 512" "offset = 512 * (offset div 512) + offset mod 512"
    by simp_all
  then show ?thesis using assms by linarith
qed

lemma write_loop_first:
  assumes res: "write_loop buff0 ino buffer sz offset bw st = Inr (bw', off', st')"
    and nf: "first_free (free_map st') \<noteq> None"
    and sz: "0 < sz"
    and b: "byte_to_sector buff0 ino offset st = Inr (s, st1)"
  shows "first_free (free_map st1) \<noteq> None"
proof (cases "s = NO_SECTOR")
  case True
  then show ?thesis using res nf sz b by (subst (asm) write_loop.simps) simp
next
  case False
  define chunk where "chunk = (let sector_ofs = c_mod offset (int BLOCK_SECTOR_SIZE);
                inode_left = MAX_FILE_SIZE - offset;
                sector_left = int BLOCK_SECTOR_SIZE - sector_ofs;
                min_left = (if inode_left < sector_left then inode_left else sector_left)
            in (if sz < min_left then sz else min_left))"
  define st2 where "st2 = write_block s
                         (copy_in (store st1 s) (nat (c_mod offset (int BLOCK_SECTOR_SIZE)))
                            (take (nat chunk) (drop (nat bw) buffer))) st1"
  show ?thesis
  proof (cases "chunk \<le> 0")
    case True
    then show ?thesis using res nf sz b False
      by (subst (asm) write_loop.simps) (simp add: chunk_def Let_def)
  next
    case c: False
    have oob: "\<not> (c_mod offset (int BLOCK_SECTOR_SIZE) < 0 \<or> int (length buffer) < bw + chunk)"
      using res sz b False c
      by (subst (asm) write_loop.simps) (auto simp add: chunk_def Let_def split: if_splits)
    have rec: "write_loop buff0 ino buffer sz offset bw st =
               write_loop buff0 ino buffer (sz - chunk) (offset + chunk) (bw + chunk) st2"
      using sz b False c oob
      by (subst write_loop.simps) (simp add: chunk_def Let_def st2_def)
    have "first_free (free_map st2) \<noteq> None"
      using res [unfolded rec] nf by (rule write_loop_full)
    then show ?thesis by (simp add: write_block_def st2_def)
  qed
qed

text \<open>The loop of \<open>inode_write_at\<close>: the bytes of the range hold the payload when it
  returns, and the bytes in front of the range that had a sector are as they were.\<close>

lemma write_loop_ok:
  assumes "inode_wf st ino" "0 \<le> offset" "0 \<le> bw" "0 \<le> sz" "offset + sz \<le> MAX_FILE_SIZE"
    and "buff0 \<or> offset + sz \<le> 63488"
    and "write_loop buff0 ino buffer sz offset bw st = Inr (bw', off', st')"
    and "first_free (free_map st') \<noteq> None"
  shows "inode_wf st' ino \<and> bw' = bw + sz \<and> off' = offset + sz \<and>
         inode_length ino st' = inode_length ino st \<and>
         (\<forall>p. offset \<le> p \<and> p < offset + sz \<longrightarrow>
              slot_ptr st' ino (pos_slot p) \<noteq> 0 \<and>
              data_at st' ino p = buffer ! nat (bw + (p - offset))) \<and>
         (\<forall>p. 0 \<le> p \<and> p < offset \<and> slot_ptr st ino (pos_slot p) \<noteq> 0 \<longrightarrow>
              slot_ptr st' ino (pos_slot p) \<noteq> 0 \<and> data_at st' ino p = data_at st ino p)"
  using assms
proof (induction buff0 ino buffer sz offset bw st rule: write_loop.induct)
  case (1 buff0 ino buffer sz offset bw st)
  note wf = "1.prems"(1) and o0 = "1.prems"(2) and bw0 = "1.prems"(3) and sz0 = "1.prems"(4)
    and mx = "1.prems"(5) and bf = "1.prems"(6) and res = "1.prems"(7) and nf = "1.prems"(8)
  show ?case
  proof (cases "sz > 0")
    case False
    then show ?thesis using res sz0 wf by (subst (asm) write_loop.simps) auto
  next
    case sz: True
    then obtain s st1 where b: "byte_to_sector buff0 ino offset st = Inr (s, st1)"
      using res by (subst (asm) write_loop.simps) (auto split: sum.splits)
    have nf1: "first_free (free_map st1) \<noteq> None"
      using res nf sz b by (rule write_loop_first)
    have r: "0 \<le> offset" "offset < 8255488" using o0 mx sz by (simp_all add: MAX_FILE_SIZE_def)
    have bf1: "buff0 \<or> offset < 63488" using bf sz by auto
    from byte_to_sector_walk [OF wf r bf1 b nf1]
    have w: "st1 = walk st ino offset" and s: "s = slot_ptr st1 ino (pos_slot offset)" by simp_all
    note ww = walk_wf [OF wf r nf1 [unfolded w], folded w]
    note wf1 = ww(1)
    have v: "valid_slot (pos_slot offset)" using r by (rule pos_slot_valid)
    have s0: "slot_ptr st1 ino (pos_slot offset) \<noteq> 0" by (rule ww(2))
    have ns: "s \<noteq> NO_SECTOR" unfolding s using wf1 v by (rule wf_no_sector)
    define ofs where "ofs = offset mod 512"
    have cm: "c_mod offset (int BLOCK_SECTOR_SIZE) = ofs" "0 \<le> ofs" "ofs < 512"
      using c_mod_nonneg [OF o0] by (simp_all add: ofs_def BLOCK_SECTOR_SIZE_def)
    define chunk where "chunk = (if sz < 512 - ofs then sz else 512 - ofs)"
    have ch: "chunk = (let sector_ofs = c_mod offset (int BLOCK_SECTOR_SIZE);
                inode_left = MAX_FILE_SIZE - offset;
                sector_left = int BLOCK_SECTOR_SIZE - sector_ofs;
                min_left = (if inode_left < sector_left then inode_left else sector_left)
            in (if sz < min_left then sz else min_left))"
      using mx sz by (auto simp: chunk_def Let_def cm) (auto simp: BLOCK_SECTOR_SIZE_def)
    have cpos: "0 < chunk" "chunk \<le> sz" "chunk \<le> 512 - ofs"
      using sz cm by (auto simp: chunk_def)
    define bytes where "bytes = take (nat chunk) (drop (nat bw) buffer)"
    define blk where "blk = copy_in (store st1 s) (nat ofs) bytes"
    define st2 where "st2 = write_block s blk st1"
    have oob: "\<not> (c_mod offset (int BLOCK_SECTOR_SIZE) < 0 \<or> int (length buffer) < bw + chunk)"
      using res sz b ns cpos
      by (subst (asm) write_loop.simps) (auto simp add: ch Let_def split: if_splits)
    then have lb: "bw + chunk \<le> int (length buffer)" by simp
    have rec: "write_loop buff0 ino buffer sz offset bw st =
               write_loop buff0 ino buffer (sz - chunk) (offset + chunk) (bw + chunk) st2"
      using sz b ns cpos oob
      by (subst write_loop.simps) (simp add: ch Let_def st2_def blk_def bytes_def cm(1) [symmetric])
    have lbytes: "length bytes = nat chunk" using lb bw0 cpos by (simp add: bytes_def)
    have nbytes: "\<And>i. i < nat chunk \<Longrightarrow> bytes ! i = buffer ! (nat bw + i)"
      using lb bw0 cpos by (simp add: bytes_def)
    have l1: "length (store st1 s) = 512" using wf1 by (rule wf_len)
    have lblk: "length blk = 512"
      using l1 lbytes cpos cm by (simp add: blk_def length_copy_in)
    note dw = data_write [OF wf1 v pos_slot_data s0 lblk, folded s, folded st2_def]
    have nf2: "first_free (free_map st2) \<noteq> None" using nf1 by (simp add: st2_def write_block_def)
    have ih: "inode_wf st' ino \<and> bw' = bw + chunk + (sz - chunk) \<and> off' = offset + chunk + (sz - chunk) \<and>
         inode_length ino st' = inode_length ino st2 \<and>
         (\<forall>p. offset + chunk \<le> p \<and> p < offset + chunk + (sz - chunk) \<longrightarrow>
              slot_ptr st' ino (pos_slot p) \<noteq> 0 \<and>
              data_at st' ino p = buffer ! nat (bw + chunk + (p - (offset + chunk)))) \<and>
         (\<forall>p. 0 \<le> p \<and> p < offset + chunk \<and> slot_ptr st2 ino (pos_slot p) \<noteq> 0 \<longrightarrow>
              slot_ptr st' ino (pos_slot p) \<noteq> 0 \<and> data_at st' ino p = data_at st2 ino p)"
      unfolding st2_def blk_def bytes_def cm(1) [symmetric]
      using sz b ns cpos oob res [unfolded rec] nf dw(1) o0 bw0 mx bf
      by (intro "1.IH") (auto simp: ch Let_def st2_def blk_def bytes_def cm)
    have store2: "\<And>x. store st2 x = (if x = s then blk else store st1 x)"
      by (simp add: st2_def write_block_def)
    have in_chunk: "\<And>p. offset \<le> p \<Longrightarrow> p < offset + chunk \<Longrightarrow>
        slot_ptr st' ino (pos_slot p) \<noteq> 0 \<and> data_at st' ino p = buffer ! nat (bw + (p - offset))"
    proof -
      fix p assume p: "offset \<le> p" "p < offset + chunk"
      have lt: "p < offset + (512 - offset mod 512)" using p cpos by (simp add: ofs_def)
      note ss = same_sector [OF o0 p(1) lt]
      have ps: "pos_slot p = pos_slot offset" using ss(1) o0 p(1) by (simp add: pos_slot_eq)
      have p2: "slot_ptr st2 ino (pos_slot p) = s" unfolding ps using dw(2) [OF v] s by simp
      have "s \<noteq> 0" using s s0 by simp
      with p2 ih p o0 have a: "slot_ptr st' ino (pos_slot p) \<noteq> 0" "data_at st' ino p = data_at st2 ino p"
        by auto
      have i: "nat (p mod 512) = nat ofs + nat (p - offset)" using ss(2) cm p by (simp add: ofs_def nat_add_distrib)
      have "data_at st2 ino p = blk ! (nat ofs + nat (p - offset))"
        by (simp add: data_at_def p2 store2 i)
      also have "\<dots> = bytes ! nat (p - offset)"
        unfolding blk_def using l1 lbytes cpos cm p by (intro copy_in_nth_in) auto
      also have "\<dots> = buffer ! (nat bw + nat (p - offset))" using p by (intro nbytes) auto
      also have "nat bw + nat (p - offset) = nat (bw + (p - offset))" using bw0 p by (simp add: nat_add_distrib)
      finally show "slot_ptr st' ino (pos_slot p) \<noteq> 0 \<and> data_at st' ino p = buffer ! nat (bw + (p - offset))"
        using a by simp
    qed
    have before: "\<And>p. 0 \<le> p \<Longrightarrow> p < offset \<Longrightarrow> slot_ptr st ino (pos_slot p) \<noteq> 0 \<Longrightarrow>
        slot_ptr st' ino (pos_slot p) \<noteq> 0 \<and> data_at st' ino p = data_at st ino p"
    proof -
      fix p assume p: "0 \<le> p" "p < offset" "slot_ptr st ino (pos_slot p) \<noteq> 0"
      have vp: "valid_slot (pos_slot p)" using p r by (intro pos_slot_valid) auto
      have p1: "slot_ptr st1 ino (pos_slot p) = slot_ptr st ino (pos_slot p)" using vp p(3) by (rule ww(3))
      have p2: "slot_ptr st2 ino (pos_slot p) = slot_ptr st ino (pos_slot p)" using dw(2) [OF vp] p1 by simp
      have d1: "store st1 (slot_ptr st ino (pos_slot p)) = store st (slot_ptr st ino (pos_slot p))"
        using vp pos_slot_data p(3) by (rule ww(4))
      from p2 ih p cpos have a: "slot_ptr st' ino (pos_slot p) \<noteq> 0" "data_at st' ino p = data_at st2 ino p"
        by auto
      have "data_at st2 ino p = data_at st ino p"
      proof (cases "slot_ptr st ino (pos_slot p) = s")
        case False
        then show ?thesis by (simp add: data_at_def p2 store2 d1)
      next
        case True
        then have "slot_ptr st1 ino (pos_slot p) = slot_ptr st1 ino (pos_slot offset)" using p1 s by simp
        with wf1 vp v have "pos_slot p = pos_slot offset" using p1 p(3) by (intro wf_ptr_inj) auto
        then have "p div 512 = offset div 512" using p o0 by (simp add: pos_slot_eq)
        with p(2) have "p mod 512 < offset mod 512" by (rule same_sector_before)
        then have "nat (p mod 512) < nat ofs" using cm by (simp add: ofs_def)
        then have "blk ! nat (p mod 512) = store st1 s ! nat (p mod 512)"
          unfolding blk_def using l1 cm by (intro copy_in_nth_before) auto
        then show ?thesis using True d1 by (simp add: data_at_def p2 store2)
      qed
      with a show "slot_ptr st' ino (pos_slot p) \<noteq> 0 \<and> data_at st' ino p = data_at st ino p" by simp
    qed
    have len: "inode_length ino st' = inode_length ino st" using ih dw(3) ww(5) by simp
    have rest: "\<And>p. offset + chunk \<le> p \<Longrightarrow> p < offset + sz \<Longrightarrow>
        slot_ptr st' ino (pos_slot p) \<noteq> 0 \<and> data_at st' ino p = buffer ! nat (bw + (p - offset))"
    proof -
      fix p assume p: "offset + chunk \<le> p" "p < offset + sz"
      have "bw + chunk + (p - (offset + chunk)) = bw + (p - offset)" by simp
      with ih p show "slot_ptr st' ino (pos_slot p) \<noteq> 0 \<and> data_at st' ino p = buffer ! nat (bw + (p - offset))"
        by auto
    qed
    have range: "\<And>p. offset \<le> p \<Longrightarrow> p < offset + sz \<Longrightarrow>
        slot_ptr st' ino (pos_slot p) \<noteq> 0 \<and> data_at st' ino p = buffer ! nat (bw + (p - offset))"
    proof -
      fix p assume p: "offset \<le> p" "p < offset + sz"
      show "slot_ptr st' ino (pos_slot p) \<noteq> 0 \<and> data_at st' ino p = buffer ! nat (bw + (p - offset))"
        using in_chunk [of p] rest [of p] p by (cases "p < offset + chunk") auto
    qed
    show ?thesis using ih len range before by simp
  qed
qed

lemma map_upt_split:
  "a \<le> n \<Longrightarrow> map f [0..<n] = map f [0..<a] @ map (\<lambda>i. f (a + i)) [0..<n - a]"
  by (auto simp: list_eq_iff_nth_eq nth_append)

text \<open>The loop of \<open>inode_read_at\<close> over bytes that all have a sector.\<close>

lemma read_loop_ok:
  assumes "inode_wf st ino" "0 \<le> offset" "0 \<le> sz" "offset + sz \<le> inode_length ino st"
    and "offset + sz \<le> 8255488"
    and "\<forall>p. offset \<le> p \<and> p < offset + sz \<longrightarrow> slot_ptr st ino (pos_slot p) \<noteq> 0"
  shows "read_loop buff0 ino sz offset buffer br st =
           Inr (buffer @ map (\<lambda>i. data_at st ino (offset + int i)) [0..<nat sz],
                br + sz, offset + sz, st)"
  using assms
proof (induction buff0 ino sz offset buffer br st rule: read_loop.induct)
  case (1 buff0 ino sz offset buffer br st)
  note wf = "1.prems"(1) and o0 = "1.prems"(2) and sz0 = "1.prems"(3) and ln = "1.prems"(4)
    and mx = "1.prems"(5) and mp = "1.prems"(6)
  show ?case
  proof (cases "sz > 0")
    case False
    then show ?thesis using sz0 by (subst read_loop.simps) simp
  next
    case sz: True
    have r: "0 \<le> offset" "offset < 8255488" using o0 mx sz by simp_all
    define s where "s = slot_ptr st ino (pos_slot offset)"
    have s0: "slot_ptr st ino (pos_slot offset) \<noteq> 0" using mp sz by simp
    have b: "byte_to_sector buff0 ino offset st = Inr (s, st)"
      unfolding s_def using wf r s0 by (rule byte_to_sector_present)
    have v: "valid_slot (pos_slot offset)" using r by (rule pos_slot_valid)
    have ns: "s \<noteq> NO_SECTOR" unfolding s_def using wf v by (rule wf_no_sector)
    define ofs where "ofs = offset mod 512"
    have cm: "c_mod offset (int BLOCK_SECTOR_SIZE) = ofs" "0 \<le> ofs" "ofs < 512"
      using c_mod_nonneg [OF o0] by (simp_all add: ofs_def BLOCK_SECTOR_SIZE_def)
    define chunk where "chunk = (if sz < 512 - ofs then sz else 512 - ofs)"
    have ch: "chunk = (let sector_ofs = c_mod offset (int BLOCK_SECTOR_SIZE);
                inode_left = inode_length ino st - offset;
                sector_left = int BLOCK_SECTOR_SIZE - sector_ofs;
                min_left = (if inode_left < sector_left then inode_left else sector_left)
            in (if sz < min_left then sz else min_left))"
      using ln sz by (auto simp: chunk_def Let_def cm) (auto simp: BLOCK_SECTOR_SIZE_def)
    have cpos: "0 < chunk" "chunk \<le> sz" "chunk \<le> 512 - ofs"
      using sz cm by (auto simp: chunk_def)
    define bytes where "bytes = take (nat chunk) (drop (nat ofs) (store st s))"
    have rec: "read_loop buff0 ino sz offset buffer br st =
               read_loop buff0 ino (sz - chunk) (offset + chunk) (buffer @ bytes) (br + chunk) st"
      using sz b ns cpos cm(2)
      by (subst read_loop.simps) (simp add: ch Let_def bytes_def cm(1) [symmetric])
    have ih: "read_loop buff0 ino (sz - chunk) (offset + chunk) (buffer @ bytes) (br + chunk) st =
           Inr ((buffer @ bytes) @ map (\<lambda>i. data_at st ino (offset + chunk + int i)) [0..<nat (sz - chunk)],
                br + chunk + (sz - chunk), offset + chunk + (sz - chunk), st)"
      unfolding bytes_def cm(1) [symmetric]
      using sz b ns cpos cm(2) wf o0 ln mx mp
      by (intro "1.IH") (auto simp: ch Let_def cm(1))
    have l1: "length (store st s) = 512" using wf by (rule wf_len)
    have lbytes: "length bytes = nat chunk" using l1 cpos cm by (simp add: bytes_def)
    have "bytes = map (\<lambda>i. data_at st ino (offset + int i)) [0..<nat chunk]"
    proof (rule nth_equalityI)
      show "length bytes = length (map (\<lambda>i. data_at st ino (offset + int i)) [0..<nat chunk])"
        by (simp add: lbytes)
    next
      fix i assume "i < length bytes"
      then have i: "i < nat chunk" by (simp add: lbytes)
      have lt: "offset + int i < offset + (512 - offset mod 512)" using i cpos by (simp add: ofs_def)
      have le: "offset \<le> offset + int i" by simp
      note ss = same_sector [OF o0 le lt]
      have ps: "pos_slot (offset + int i) = pos_slot offset" using ss(1) o0 by (simp add: pos_slot_eq)
      have n: "nat ((offset + int i) mod 512) = nat ofs + i" using ss(2) cm by (simp add: ofs_def nat_add_distrib)
      have "bytes ! i = store st s ! (nat ofs + i)" using i l1 cpos cm by (simp add: bytes_def)
      then show "bytes ! i = map (\<lambda>i. data_at st ino (offset + int i)) [0..<nat chunk] ! i"
        using i by (simp add: data_at_def ps n s_def)
    qed
    moreover have "map (\<lambda>i. data_at st ino (offset + int i)) [0..<nat sz] =
        map (\<lambda>i. data_at st ino (offset + int i)) [0..<nat chunk] @
        map (\<lambda>i. data_at st ino (offset + int (nat chunk + i))) [0..<nat sz - nat chunk]"
      using cpos by (intro map_upt_split) simp
    moreover have "nat sz - nat chunk = nat (sz - chunk)" using cpos by simp
    moreover have "\<And>i. offset + int (nat chunk + i) = offset + chunk + int i" using cpos by simp
    ultimately have "bytes @ map (\<lambda>i. data_at st ino (offset + chunk + int i)) [0..<nat (sz - chunk)]
        = map (\<lambda>i. data_at st ino (offset + int i)) [0..<nat sz]" by (simp add: add.assoc)
    then show ?thesis unfolding rec ih by simp
  qed
qed

lemma start_read_ahead_total:
  assumes "0 \<le> offset" "offset + 511 < 8255488"
    and "first_free (free_map st) \<noteq> None"
  shows "\<exists>st'. start_read_ahead buff0 ino offset st = Inr st'"
proof -
  have "0 \<le> offset + int BLOCK_SECTOR_SIZE - 1" "offset + int BLOCK_SECTOR_SIZE - 1 < 8255488"
    using assms by (simp_all add: BLOCK_SECTOR_SIZE_def)
  from byte_to_sector_total [OF this disjI1 [OF assms(3)], of buff0 ino] show ?thesis
    by (auto simp: start_read_ahead_def)
qed

text \<open>
  Where the pointers are recorded the write can be read back. Take a well-formed file, a
  write that is not refused, of a payload that ends at or below \<open>MAX_FILE_SIZE\<close>, after
  which the free map still has a free sector (so that no allocation of the write, or of
  the read-ahead that follows the read, found the map full), and beyond the direct
  sectors a local \<open>buff\<close> of \<open>byte_to_sector\<close> that is not null: \<open>inode_write_at\<close> returns the
  length of the payload, the stored length is at least \<open>off + k\<close>, and \<open>inode_read_at\<close> of
  \<open>k\<close> bytes at \<open>off\<close> returns \<open>k\<close> and the payload.
\<close>

lemma round_trip_with_recorded_pointers:
  assumes wf: "inode_wf st ino"
    and dw: "deny_write_cnt ino = 0"
    and off: "0 \<le> off" "off + int (length buf) \<le> MAX_FILE_SIZE"
    and bf: "buff0 \<or> off + int (length buf) \<le> 63488"
    and wr: "inode_write_at buff0 ino buf (int (length buf)) off st = Inr (k, st1)"
    and nf: "first_free (free_map st1) \<noteq> None"
  shows "k = int (length buf) \<and> off + k \<le> inode_length ino st1 \<and>
         (\<exists>st2. inode_read_at buff0 ino k off st1 = Inr (k, buf, st2))"
proof -
  define n where "n = int (length buf)"
  obtain bw off1 sa where wl: "write_loop buff0 ino buf n off 0 st = Inr (bw, off1, sa)"
    using wr dw by (auto simp: inode_write_at_def n_def split: sum.splits)
  have st1: "st1 = (if off1 > inode_length ino sa
                    then write_block (sector ino) (set_disk_length (store sa (sector ino)) off1) sa
                    else sa)" and k: "k = bw"
    using wr dw wl by (auto simp: inode_write_at_def n_def split: if_splits)
  have nfa: "first_free (free_map sa) \<noteq> None"
    using nf by (auto simp: st1 write_block_def split: if_splits)
  have n0: "0 \<le> n" by (simp add: n_def)
  from write_loop_ok [OF wf off(1) _ n0 off(2) [folded n_def] bf [folded n_def] wl nfa]
  have wfa: "inode_wf sa ino" and bw: "bw = n" and o1: "off1 = off + n"
    and da: "\<And>p. off \<le> p \<Longrightarrow> p < off + n \<Longrightarrow>
               slot_ptr sa ino (pos_slot p) \<noteq> 0 \<and> data_at sa ino p = buf ! nat (p - off)"
    by simp_all
  have o1r: "0 \<le> off1" "off1 < 2 ^ 31" using o1 off n0 by (simp_all add: n_def MAX_FILE_SIZE_def)
  note lw = length_write [OF wfa o1r]
  have wf1: "inode_wf st1 ino" using wfa lw(1) by (simp add: st1)
  have len: "off + n \<le> inode_length ino st1" using lw(3) o1 by (simp add: st1)
  have d1: "\<And>p. off \<le> p \<Longrightarrow> p < off + n \<Longrightarrow>
               slot_ptr st1 ino (pos_slot p) \<noteq> 0 \<and> data_at st1 ino p = buf ! nat (p - off)"
  proof -
    fix p assume p: "off \<le> p" "p < off + n"
    have v: "valid_slot (pos_slot p)" using p off by (intro pos_slot_valid) (auto simp: n_def MAX_FILE_SIZE_def)
    have a: "slot_ptr sa ino (pos_slot p) \<noteq> 0" using da [OF p] by simp
    have "slot_ptr sa ino (pos_slot p) \<noteq> sector ino" using wfa v a by (rule wf_ptr_ino)
    then have "slot_ptr st1 ino (pos_slot p) = slot_ptr sa ino (pos_slot p) \<and>
        store st1 (slot_ptr sa ino (pos_slot p)) = store sa (slot_ptr sa ino (pos_slot p))"
      using lw(2) [OF v] lw(4) by (simp add: st1)
    then show "slot_ptr st1 ino (pos_slot p) \<noteq> 0 \<and> data_at st1 ino p = buf ! nat (p - off)"
      using da [OF p] by (simp add: data_at_def)
  qed
  have rd: "\<exists>st2. inode_read_at buff0 ino n off st1 = Inr (n, buf, st2)"
  proof (cases "off \<ge> inode_length ino st1")
    case True
    then have "n = 0" using len n0 by simp
    then show ?thesis using True by (simp add: inode_read_at_def n_def)
  next
    case False
    have mx: "off + n \<le> 8255488" using off by (simp add: n_def MAX_FILE_SIZE_def)
    have mp: "\<forall>p. off \<le> p \<and> p < off + n \<longrightarrow> slot_ptr st1 ino (pos_slot p) \<noteq> 0" using d1 by simp
    note rl = read_loop_ok [OF wf1 off(1) n0 len mx mp, of buff0 "[]" 0]
    have "map (\<lambda>i. data_at st1 ino (off + int i)) [0..<nat n] = map (\<lambda>i. buf ! i) [0..<length buf]"
      using d1 by (simp add: n_def)
    also have "\<dots> = buf" by (rule map_nth)
    finally have rl': "read_loop buff0 ino n off [] 0 st1 = Inr (buf, n, off + n, st1)"
      using rl by simp
    have "0 \<le> off + n" "off + n + 511 < 8255488" using off n0 by (simp_all add: n_def MAX_FILE_SIZE_def)
    from start_read_ahead_total [OF this nf, of buff0 ino] obtain st2 where
      "start_read_ahead buff0 ino (off + n) st1 = Inr st2" by blast
    then show ?thesis using False by (simp add: inode_read_at_def rl')
  qed
  show ?thesis using k bw len rd by (simp add: n_def)
qed

lemma blank_fs_wf: "inode_wf (blank_fs 6) (opened 1)"
proof -
  have p: "\<And>sl. slot_ptr (blank_fs 6) (opened 1) sl = 0"
    subgoal for sl
      by (cases sl) (simp_all add: blank_fs_def disk_sectors_def root_ptr_def mid_ptr_def get32_zero_block)
    done
  show ?thesis
    unfolding inode_wf_def p
    by (simp add: blank_fs_def length_zero_block sector_used_def opened_def)
qed

lemma round_trip_with_recorded_pointers_example:
  "inode_wf (blank_fs 6) (opened 1) \<and>
   (\<exists>st1 st2. inode_write_at True (opened 1) [1, 2, 3, 4, 5] 5 63488 (blank_fs 6) = Inr (5, st1) \<and>
      first_free (free_map st1) = Some 5 \<and>
      63488 + 5 \<le> inode_length (opened 1) st1 \<and>
      inode_read_at True (opened 1) 5 63488 st1 = Inr (5, [1, 2, 3, 4, 5], st2))"
proof -
  have "\<exists>st1. inode_write_at True (opened 1) [1, 2, 3, 4, 5] 5 63488 (blank_fs 6) = Inr (5, st1) \<and>
          first_free (free_map st1) = Some 5"
    by (simp add: eval_defs rw_defs)
  then obtain st1 where w: "inode_write_at True (opened 1) [1, 2, 3, 4, 5] (int (length [1, 2, 3, 4, 5 :: byte])) 63488 (blank_fs 6) = Inr (5, st1)"
    and f: "first_free (free_map st1) = Some 5" by auto
  have nf: "first_free (free_map st1) \<noteq> None" using f by simp
  have d: "deny_write_cnt (opened 1) = 0" by (simp add: opened_def)
  have r: "(0::int) \<le> 63488" "63488 + int (length [1, 2, 3, 4, 5 :: byte]) \<le> MAX_FILE_SIZE"
    "True \<or> 63488 + int (length [1, 2, 3, 4, 5 :: byte]) \<le> 63488"
    by (simp_all add: MAX_FILE_SIZE_def)
  from round_trip_with_recorded_pointers [OF blank_fs_wf d r w nf] w f blank_fs_wf show ?thesis by auto
qed

text \<open>
  C4. The claim fails on the code beyond the direct sectors. \<open>byte_to_sector\<close> passes its
  local \<open>buff\<close> to \<open>byte_to_indirect_sector\<close> before it is initialised, gets it back
  unchanged, and \<open>byte_to_double_indirect_sec\<close> stores the pointer to a sector it
  allocates only under \<open>if (buff != NULL)\<close>. When \<open>buff\<close> is null, a write of five bytes
  at offset 63488 of the empty file on the blank device returns 5 and sets the length to
  63493, and the read of five bytes at 63488 that follows returns 5 and five zero bytes:
  the walk of the write found \<open>sectors[124]\<close> and put the data into a sector that no
  pointer leads to, and the walk of the read allocates two sectors again.
\<close>

theorem round_trip_lost_when_buff_null:
  "\<exists>st1 st2.
     inode_write_at False (opened 1) [1, 2, 3, 4, 5] 5 63488 (blank_fs 6) = Inr (5, st1) \<and>
     inode_length (opened 1) st1 = 63493 \<and>
     free_map st1 = [True, True, True, True, True, False, False, False] \<and>
     inode_read_at False (opened 1) 5 63488 st1 = Inr (5, [0, 0, 0, 0, 0], st2) \<and>
     free_map st2 = [True, True, True, True, True, True, True, False]"
  by (simp add: eval_defs rw_defs)

end
